theory Spec2Isabelle
  imports Complex_Main "HOL-Library.Word" "HOL-Library.Sublist" "HOL-Library.AList"
begin

section \<open>Strings and errors\<close>

text \<open>
  A JavaScript string is a sequence of 16-bit code units. String literals of the source are
  written \<open>js ''...''\<close>; every character of such a literal is ASCII.

  An exception is a value of type \<open>error\<close>: \<open>Error msg\<close> is
  \<^verbatim>\<open>new Error(msg)\<close>, and \<open>TypeError\<close> is a \<^verbatim>\<open>TypeError\<close> raised by the language
  runtime (its message is not modelled). A function that may throw returns \<open>error + 'a\<close>.
\<close>

type_synonym jschar = "16 word"
type_synonym jsstring = "jschar list"

definition js :: "string \<Rightarrow> jsstring" where
  "js s = map of_char s"

datatype error = Error jsstring | TypeError

section \<open>The token parser\<close>

subsection \<open>The regular expression\<close>

text \<open>
  \<^verbatim>\<open>const ejsonRegex = /^EJ\[(\d):([A-Za-z0-9+=/]{44}):([A-Za-z0-9+=/]{32}):(.+)]$/\<close>

  The pattern has no flags, so \<^verbatim>\<open>.\<close> matches every code unit but the four line
  terminators (LF, CR, U+2028, U+2029), \<^verbatim>\<open>\d\<close> is \<^verbatim>\<open>[0-9]\<close>, and \<^verbatim>\<open>$\<close> matches at the
  end of the input only.
\<close>

definition in_range :: "jschar \<Rightarrow> char \<Rightarrow> char \<Rightarrow> bool" where
  "in_range c lo hi = (of_char lo \<le> c \<and> c \<le> of_char hi)"

definition digit_class :: "jschar \<Rightarrow> bool" where
  "digit_class c = in_range c CHR ''0'' CHR ''9''"

definition base64_class :: "jschar \<Rightarrow> bool" where
  "base64_class c =
     (in_range c CHR ''A'' CHR ''Z'' \<or> in_range c CHR ''a'' CHR ''z'' \<or> in_range c CHR ''0'' CHR ''9''
      \<or> c = of_char CHR ''+'' \<or> c = of_char CHR ''='' \<or> c = of_char CHR ''/'')"

definition line_terminator :: "jschar \<Rightarrow> bool" where
  "line_terminator c = (c = 0x000A \<or> c = 0x000D \<or> c = 0x2028 \<or> c = 0x2029)"

definition dot_class :: "jschar \<Rightarrow> bool" where
  "dot_class c = (\<not> line_terminator c)"

text \<open>
  The pattern is a sequence of items between \<^verbatim>\<open>^\<close> and \<^verbatim>\<open>$\<close>. An item is an atom, captured
  (\<open>Group\<close>) or not (\<open>Plain\<close>); an atom is a literal, a character class repeated exactly
  \<open>n\<close> times, or a character class under the greedy \<^verbatim>\<open>+\<close>.
\<close>

datatype atom = Lit jsstring | Rep "jschar \<Rightarrow> bool" nat | Plus "jschar \<Rightarrow> bool"

datatype item = Plain atom | Group atom

text \<open>
  The matcher backtracks as the JavaScript one does. \<open>alternatives a s\<close> lists the ways
  atom \<open>a\<close> can match at the start of \<open>s\<close>, as pairs (matched text, rest), in the order the
  engine tries them: a greedy \<^verbatim>\<open>+\<close> tries the longest run first and gives back one code unit at
  a time, down to one. \<open>match_items\<close> matches the items from the start of the input (the
  \<^verbatim>\<open>^\<close>), takes the first alternative under which the remaining items match, and accepts
  the end of the pattern at the end of the input only (the \<^verbatim>\<open>$\<close>); it returns the captured
  groups. \<open>str_match\<close> is \<^verbatim>\<open>value.match(regex)\<close>: \<open>None\<close> is \<^verbatim>\<open>null\<close>, and the array of a
  match holds the whole match (here the whole input) followed by the groups.
\<close>

fun alternatives :: "atom \<Rightarrow> jsstring \<Rightarrow> (jsstring \<times> jsstring) list" where
  "alternatives (Lit l) s = (if prefix l s then [(l, drop (length l) s)] else [])"
| "alternatives (Rep p n) s =
     (if n \<le> length s \<and> list_all p (take n s) then [(take n s, drop n s)] else [])"
| "alternatives (Plus p) s =
     map (\<lambda>k. (take k s, drop k s)) (rev [1 ..< Suc (length (takeWhile p s))])"

fun first_some :: "('a \<Rightarrow> 'b option) \<Rightarrow> 'a list \<Rightarrow> 'b option" where
  "first_some f [] = None"
| "first_some f (x # xs) = (case f x of Some y \<Rightarrow> Some y | None \<Rightarrow> first_some f xs)"

fun match_items :: "item list \<Rightarrow> jsstring \<Rightarrow> jsstring list option" where
  "match_items [] s = (if s = [] then Some [] else None)"
| "match_items (Plain a # its) s =
     first_some (\<lambda>(m, rest). match_items its rest) (alternatives a s)"
| "match_items (Group a # its) s =
     first_some (\<lambda>(m, rest). map_option ((#) m) (match_items its rest)) (alternatives a s)"

definition str_match :: "jsstring \<Rightarrow> item list \<Rightarrow> jsstring list option" where
  "str_match s re = map_option ((#) s) (match_items re s)"

definition ejsonRegex :: "item list" where
  "ejsonRegex =
     [Plain (Lit (js ''EJ['')), Group (Rep digit_class 1), Plain (Lit (js '':'')),
      Group (Rep base64_class 44), Plain (Lit (js '':'')),
      Group (Rep base64_class 32), Plain (Lit (js '':'')),
      Group (Plus dot_class), Plain (Lit (js '']''))]"

subsection \<open>parseEncryptedValue\<close>

text \<open>
  \<^verbatim>\<open>parseInt\<close> reads the longest prefix of decimal digits; \<open>None\<close> is \<^verbatim>\<open>NaN\<close>. Leading white
  space, a sign and the \<^verbatim>\<open>0x\<close> prefix are left out: the only argument the source passes is
  the first group, one decimal digit.
\<close>

definition decimal :: "jsstring \<Rightarrow> nat" where
  "decimal ds = foldl (\<lambda>a c. 10 * a + unat (c - of_char CHR ''0'')) 0 ds"

definition parseInt :: "jsstring \<Rightarrow> int option" where
  "parseInt s =
     (let ds = takeWhile digit_class s
      in if ds = [] then None else Some (int (decimal ds)))"

record token =
  schemaVersion :: "int option"
  encrypterPublic :: jsstring
  nonce :: jsstring
  box :: jsstring

definition parseEncryptedValue :: "jsstring \<Rightarrow> error + token" where
  "parseEncryptedValue v =
     (case str_match v ejsonRegex of
        None \<Rightarrow> Inl (Error (js ''Invalid EJSON: '' @ v))
      | Some parts \<Rightarrow>
          if length parts \<noteq> 5 then Inl (Error (js ''Invalid EJSON: '' @ v))
          else Inr \<lparr>schemaVersion = parseInt (parts ! 1), encrypterPublic = parts ! 2,
                    nonce = parts ! 3, box = parts ! 4\<rparr>)"

subsection \<open>The grammar of a token\<close>

text \<open>
  The grammar, as a predicate on a string and the fields read from it. It is stated once,
  over the class of characters allowed in the ciphertext field: \<open>spec_grammar\<close> allows any
  character there, \<open>regex_grammar\<close> the characters \<^verbatim>\<open>.\<close> matches.
\<close>

definition digit_value :: "jschar \<Rightarrow> int" where
  "digit_value d = uint d - 48"

definition token_grammar :: "(jschar \<Rightarrow> bool) \<Rightarrow> jsstring \<Rightarrow> token \<Rightarrow> bool" where
  "token_grammar cipher_char s t =
     (\<exists>d pk n c.
        s = js ''EJ['' @ [d] @ js '':'' @ pk @ js '':'' @ n @ js '':'' @ c @ js '']'' \<and>
        digit_class d \<and>
        length pk = 44 \<and> list_all base64_class pk \<and>
        length n = 32 \<and> list_all base64_class n \<and>
        c \<noteq> [] \<and> list_all cipher_char c \<and>
        t = \<lparr>schemaVersion = Some (digit_value d), encrypterPublic = pk, nonce = n, box = c\<rparr>)"

definition spec_grammar :: "jsstring \<Rightarrow> token \<Rightarrow> bool" where
  "spec_grammar = token_grammar (\<lambda>c. True)"

definition regex_grammar :: "jsstring \<Rightarrow> token \<Rightarrow> bool" where
  "regex_grammar = token_grammar dot_class"

text \<open>The token of the repository's test file, and a token with a line feed in its last field.\<close>

definition test_secret :: jsstring where
  "test_secret = js ''EJ[1:jeDOl5qTBwflgRuusXrqoT5eclnznLKuCp8fxbuHjGg=:fRVLp8YU/m9sb04HKAN9r8RVzLNWkdTu:uhoMKBnFTUDSO5nayF/Wx/D+d8dPBIlLUJq8KA==]''"

definition newline_token :: jsstring where
  "newline_token =
     js ''EJ[1:jeDOl5qTBwflgRuusXrqoT5eclnznLKuCp8fxbuHjGg=:fRVLp8YU/m9sb04HKAN9r8RVzLNWkdTu:uhoM''
       @ [0x000A] @ js ''KBnF]''"

definition newline_token_fields :: token where
  "newline_token_fields =
     \<lparr>schemaVersion = Some 1,
      encrypterPublic = js ''jeDOl5qTBwflgRuusXrqoT5eclnznLKuCp8fxbuHjGg='',
      nonce = js ''fRVLp8YU/m9sb04HKAN9r8RVzLNWkdTu'',
      box = js ''uhoM'' @ [0x000A] @ js ''KBnF''\<rparr>"

subsection \<open>What the matcher accepts\<close>

lemma first_some_unique:
  assumes "\<And>x. x \<in> set xs \<Longrightarrow> f x \<noteq> None \<Longrightarrow> x = a"
  shows "first_some f xs = (if a \<in> set xs then f a else None)"
  using assms
proof (induction xs)
  case Nil
  then show ?case by simp
next
  case (Cons x xs)
  show ?case
  proof (cases "f x")
    case None
    then show ?thesis using Cons by (auto split: option.splits)
  next
    case (Some y)
    then have "x = a" using Cons.prems by simp
    then show ?thesis using Some by simp
  qed
qed

lemma first_some_map: "first_some f (map g xs) = first_some (\<lambda>x. f (g x)) xs"
  by (induction xs) (auto split: option.splits)

lemma match_Plain_Lit:
  "match_items (Plain (Lit l) # its) s =
     (if prefix l s then match_items its (drop (length l) s) else None)"
  by (simp split: option.splits)

lemma match_Group_Rep:
  "match_items (Group (Rep p n) # its) s =
     (if n \<le> length s \<and> list_all p (take n s)
      then map_option ((#) (take n s)) (match_items its (drop n s)) else None)"
  by (simp split: option.splits)

lemma le_length_takeWhile:
  "k \<le> length (takeWhile p s) \<longleftrightarrow> k \<le> length s \<and> list_all p (take k s)"
proof (induction s arbitrary: k)
  case Nil
  then show ?case by simp
next
  case (Cons x s)
  then show ?case by (cases k) auto
qed

text \<open>
  The greedy group followed by one literal character and the end of the input: of the runs
  the group may take, only the one that leaves exactly that character matches.
\<close>

lemma match_Plus_then_char:
  "match_items [Group (Plus p), Plain (Lit [c0])] s =
     (if 2 \<le> length s \<and> last s = c0 \<and> list_all p (butlast s) then Some [butlast s] else None)"
proof -
  let ?g = "\<lambda>k. map_option ((#) (take k s)) (match_items [Plain (Lit [c0])] (drop k s))"
  let ?ks = "rev [1 ..< Suc (length (takeWhile p s))]"
  have g: "?g k = (if drop k s = [c0] then Some [take k s] else None)" for k
    by (cases "drop k s") (auto simp: prefix_def split: option.splits)
  have uniq: "\<And>k. k \<in> set ?ks \<Longrightarrow> ?g k \<noteq> None \<Longrightarrow> k = length s - 1"
  proof -
    fix k assume "k \<in> set ?ks" and "?g k \<noteq> None"
    then have "drop k s = [c0]" by (simp only: g split: if_splits) simp
    then have "length (drop k s) = 1" by simp
    then show "k = length s - 1" by simp
  qed
  have "match_items [Group (Plus p), Plain (Lit [c0])] s = first_some ?g ?ks"
    by (simp add: first_some_map del: match_items.simps(2))
  also have "\<dots> = (if length s - 1 \<in> set ?ks then ?g (length s - 1) else None)"
    by (rule first_some_unique) (rule uniq)
  also have "\<dots> = (if 2 \<le> length s \<and> last s = c0 \<and> list_all p (butlast s) then Some [butlast s] else None)"
  proof (cases "2 \<le> length s")
    case False
    then show ?thesis by auto
  next
    case True
    then have ne: "s \<noteq> []" by auto
    have d: "drop (length s - 1) s = [last s]"
      using ne by (metis append_butlast_last_id append_eq_conv_conj length_butlast)
    have t: "take (length s - 1) s = butlast s"
      by (simp add: butlast_conv_take)
    have "length s - 1 \<in> set ?ks \<longleftrightarrow> length s - 1 \<le> length (takeWhile p s)"
      using True by auto
    also have "\<dots> \<longleftrightarrow> list_all p (take (length s - 1) s)"
      by (simp only: le_length_takeWhile) simp
    finally have m: "length s - 1 \<in> set ?ks \<longleftrightarrow> list_all p (butlast s)"
      by (simp only: t)
    show ?thesis using True by (simp only: g d t m) auto
  qed
  finally show ?thesis .
qed

lemma js_lits:
  "js ''EJ['' = [0x45, 0x4A, 0x5B]" "js '':'' = [0x3A]" "js '']'' = [0x5D]" "js ''_'' = [0x5F]"
  by (simp_all add: js_def)

lemma match_Lit_iff:
  "match_items (Plain (Lit l) # its) s = Some caps \<longleftrightarrow>
     (\<exists>r. s = l @ r \<and> match_items its r = Some caps)"
  by (auto simp only: match_Plain_Lit prefix_def split: if_splits) auto

lemma match_Rep_iff:
  "match_items (Group (Rep p n) # its) s = Some caps \<longleftrightarrow>
     (\<exists>m r cs. s = m @ r \<and> length m = n \<and> list_all p m \<and>
        match_items its r = Some cs \<and> caps = m # cs)"
proof
  assume "match_items (Group (Rep p n) # its) s = Some caps"
  then obtain cs where "n \<le> length s" "list_all p (take n s)"
      "match_items its (drop n s) = Some cs" "caps = take n s # cs"
    by (auto simp only: match_Group_Rep split: if_splits)
  then have "s = take n s @ drop n s \<and> length (take n s) = n \<and> list_all p (take n s) \<and>
        match_items its (drop n s) = Some cs \<and> caps = take n s # cs"
    by simp
  then show "\<exists>m r cs. s = m @ r \<and> length m = n \<and> list_all p m \<and>
        match_items its r = Some cs \<and> caps = m # cs"
    by blast
next
  assume "\<exists>m r cs. s = m @ r \<and> length m = n \<and> list_all p m \<and>
        match_items its r = Some cs \<and> caps = m # cs"
  then show "match_items (Group (Rep p n) # its) s = Some caps"
    by (auto simp only: match_Group_Rep) auto
qed

lemma match_tail_iff:
  "match_items [Group (Plus p), Plain (Lit [c0])] s = Some caps \<longleftrightarrow>
     (\<exists>c. s = c @ [c0] \<and> c \<noteq> [] \<and> list_all p c \<and> caps = [c])"
proof
  assume "match_items [Group (Plus p), Plain (Lit [c0])] s = Some caps"
  then have h: "2 \<le> length s" "last s = c0" "list_all p (butlast s)" "caps = [butlast s]"
    by (auto simp only: match_Plus_then_char split: if_splits)
  then have "s \<noteq> []" by auto
  then have "s = butlast s @ [c0]" using h(2) by (metis append_butlast_last_id)
  moreover have "butlast s \<noteq> []" using h(1) by (cases s) (auto split: if_splits)
  ultimately show "\<exists>c. s = c @ [c0] \<and> c \<noteq> [] \<and> list_all p c \<and> caps = [c]"
    using h by blast
next
  assume "\<exists>c. s = c @ [c0] \<and> c \<noteq> [] \<and> list_all p c \<and> caps = [c]"
  then obtain c where c: "s = c @ [c0]" "c \<noteq> []" "list_all p c" "caps = [c]" by blast
  then have "2 \<le> length s" by (cases c) auto
  then show "match_items [Group (Plus p), Plain (Lit [c0])] s = Some caps"
    using c by (simp only: match_Plus_then_char) simp
qed

lemma match_ejsonRegex:
  "match_items ejsonRegex s = Some caps \<longleftrightarrow>
     (\<exists>d pk n c.
        s = js ''EJ['' @ [d] @ js '':'' @ pk @ js '':'' @ n @ js '':'' @ c @ js '']'' \<and>
        digit_class d \<and> length pk = 44 \<and> list_all base64_class pk \<and>
        length n = 32 \<and> list_all base64_class n \<and> c \<noteq> [] \<and> list_all dot_class c \<and>
        caps = [[d], pk, n, c])"
  (is "?L \<longleftrightarrow> ?R")
proof
  assume ?L
  then have "\<exists>r. s = js ''EJ['' @ r \<and> (\<exists>m1 r1 cs1. r = m1 @ r1 \<and> length m1 = 1 \<and> list_all digit_class m1 \<and>
      (\<exists>r. r1 = js '':'' @ r \<and> (\<exists>m2 r2 cs2. r = m2 @ r2 \<and> length m2 = 44 \<and> list_all base64_class m2 \<and>
      (\<exists>r. r2 = js '':'' @ r \<and> (\<exists>m3 r3 cs3. r = m3 @ r3 \<and> length m3 = 32 \<and> list_all base64_class m3 \<and>
      (\<exists>r. r3 = js '':'' @ r \<and> (\<exists>c. r = c @ [0x5D] \<and> c \<noteq> [] \<and> list_all dot_class c \<and> cs3 = [c])) \<and>
      cs2 = m3 # cs3)) \<and> cs1 = m2 # cs2)) \<and> caps = m1 # cs1)"
    unfolding ejsonRegex_def by (simp only: match_Lit_iff match_Rep_iff match_tail_iff js_lits(3))
  then obtain m1 m2 m3 c where h:
      "s = js ''EJ['' @ m1 @ js '':'' @ m2 @ js '':'' @ m3 @ js '':'' @ c @ [0x5D]"
      "length m1 = 1" "list_all digit_class m1" "length m2 = 44" "list_all base64_class m2"
      "length m3 = 32" "list_all base64_class m3" "c \<noteq> []" "list_all dot_class c"
      "caps = [m1, m2, m3, c]"
    by blast
  obtain d where d: "m1 = [d]" using h(2) by (cases m1) auto
  have "s = js ''EJ['' @ [d] @ js '':'' @ m2 @ js '':'' @ m3 @ js '':'' @ c @ js '']''"
    using h(1) d by (simp only: js_lits(3))
  moreover have "digit_class d" using h(3) d by simp
  moreover have "caps = [[d], m2, m3, c]" using h(10) d by simp
  ultimately show ?R using h by blast
next
  assume ?R
  then obtain d pk n c where h:
        "s = js ''EJ['' @ [d] @ js '':'' @ pk @ js '':'' @ n @ js '':'' @ c @ js '']''"
        "digit_class d" "length pk = 44" "list_all base64_class pk"
        "length n = 32" "list_all base64_class n" "c \<noteq> []" "list_all dot_class c"
        "caps = [[d], pk, n, c]"
    by blast
  have t: "match_items [Group (Plus dot_class), Plain (Lit (js '']''))] (c @ js '']'') = Some [c]"
    using h(7,8) by (simp only: js_lits match_tail_iff) blast
  have 3: "match_items [Plain (Lit (js '':'')), Group (Plus dot_class), Plain (Lit (js '']''))]
             (js '':'' @ c @ js '']'') = Some [c]"
    using t by (simp only: match_Lit_iff) blast
  have 4: "match_items [Group (Rep base64_class 32), Plain (Lit (js '':'')), Group (Plus dot_class), Plain (Lit (js '']''))]
             (n @ js '':'' @ c @ js '']'') = Some [n, c]"
    using 3 h(5,6) by (simp only: match_Rep_iff) blast
  have 5: "match_items [Plain (Lit (js '':'')), Group (Rep base64_class 32), Plain (Lit (js '':'')), Group (Plus dot_class), Plain (Lit (js '']''))]
             (js '':'' @ n @ js '':'' @ c @ js '']'') = Some [n, c]"
    using 4 by (simp only: match_Lit_iff) blast
  have 6: "match_items [Group (Rep base64_class 44), Plain (Lit (js '':'')), Group (Rep base64_class 32), Plain (Lit (js '':'')), Group (Plus dot_class), Plain (Lit (js '']''))]
             (pk @ js '':'' @ n @ js '':'' @ c @ js '']'') = Some [pk, n, c]"
    using 5 h(3,4) by (simp only: match_Rep_iff) blast
  have 7: "match_items [Plain (Lit (js '':'')), Group (Rep base64_class 44), Plain (Lit (js '':'')), Group (Rep base64_class 32), Plain (Lit (js '':'')), Group (Plus dot_class), Plain (Lit (js '']''))]
             (js '':'' @ pk @ js '':'' @ n @ js '':'' @ c @ js '']'') = Some [pk, n, c]"
    using 6 by (simp only: match_Lit_iff) blast
  have 8: "match_items [Group (Rep digit_class 1), Plain (Lit (js '':'')), Group (Rep base64_class 44), Plain (Lit (js '':'')), Group (Rep base64_class 32), Plain (Lit (js '':'')), Group (Plus dot_class), Plain (Lit (js '']''))]
             ([d] @ js '':'' @ pk @ js '':'' @ n @ js '':'' @ c @ js '']'') = Some [[d], pk, n, c]"
  proof -
    have "length [d] = 1 \<and> list_all digit_class [d]" using h(2) by simp
    then show ?thesis using 7 by (simp only: match_Rep_iff) blast
  qed
  show ?L unfolding ejsonRegex_def h(1) h(9) using 8 by (simp only: match_Lit_iff) blast
qed

lemma parseInt_digit: "digit_class d \<Longrightarrow> parseInt [d] = Some (digit_value d)"
  apply (simp add: parseInt_def decimal_def digit_value_def digit_class_def in_range_def)
  apply (simp add: uint_minus_simple_alt word_le_def)
  done

lemma parse_Inr_iff: "parseEncryptedValue s = Inr t \<longleftrightarrow> regex_grammar s t"
proof
  assume "parseEncryptedValue s = Inr t"
  then obtain caps where c: "match_items ejsonRegex s = Some caps"
    and t: "t = \<lparr>schemaVersion = parseInt ((s # caps) ! 1), encrypterPublic = (s # caps) ! 2,
                    nonce = (s # caps) ! 3, box = (s # caps) ! 4\<rparr>"
    by (auto simp: parseEncryptedValue_def str_match_def split: option.splits if_splits)
  from c obtain d pk n c' where h:
        "s = js ''EJ['' @ [d] @ js '':'' @ pk @ js '':'' @ n @ js '':'' @ c' @ js '']''"
        "digit_class d" "length pk = 44" "list_all base64_class pk"
        "length n = 32" "list_all base64_class n" "c' \<noteq> []" "list_all dot_class c'"
        "caps = [[d], pk, n, c']"
    unfolding match_ejsonRegex by blast
  have "t = \<lparr>schemaVersion = Some (digit_value d), encrypterPublic = pk, nonce = n, box = c'\<rparr>"
    using t h(9) parseInt_digit [OF h(2)] by simp
  then show "regex_grammar s t"
    unfolding regex_grammar_def token_grammar_def using h by blast
next
  assume "regex_grammar s t"
  then obtain d pk n c where h:
        "s = js ''EJ['' @ [d] @ js '':'' @ pk @ js '':'' @ n @ js '':'' @ c @ js '']''"
        "digit_class d" "length pk = 44" "list_all base64_class pk"
        "length n = 32" "list_all base64_class n" "c \<noteq> []" "list_all dot_class c"
        "t = \<lparr>schemaVersion = Some (digit_value d), encrypterPublic = pk, nonce = n, box = c\<rparr>"
    unfolding regex_grammar_def token_grammar_def by blast
  then have "match_items ejsonRegex s = Some [[d], pk, n, c]"
    unfolding match_ejsonRegex by blast
  then show "parseEncryptedValue s = Inr t"
    using h(9) parseInt_digit [OF h(2)]
    by (simp add: parseEncryptedValue_def str_match_def)
qed

lemma parse_Inl_iff:
  "parseEncryptedValue s = Inl e \<longleftrightarrow>
     (\<forall>t. \<not> regex_grammar s t) \<and> e = Error (js ''Invalid EJSON: '' @ s)"
proof -
  have cases: "parseEncryptedValue s = Inl (Error (js ''Invalid EJSON: '' @ s))
               \<or> (\<exists>t. parseEncryptedValue s = Inr t)"
    by (auto simp: parseEncryptedValue_def split: option.splits)
  show ?thesis
  proof (cases "\<exists>t. regex_grammar s t")
    case True
    then show ?thesis by (auto simp: parse_Inr_iff [symmetric])
  next
    case False
    then have "\<forall>t. parseEncryptedValue s \<noteq> Inr t" by (simp add: parse_Inr_iff)
    with cases have "parseEncryptedValue s = Inl (Error (js ''Invalid EJSON: '' @ s))" by blast
    then show ?thesis using False by auto
  qed
qed

section \<open>The box codec\<close>

text \<open>
  \<^verbatim>\<open>encrypt\<close> and \<^verbatim>\<open>decrypt\<close> convert between text and bytes with Node's \<^verbatim>\<open>Buffer\<close> and call
  \<^verbatim>\<open>nacl.box\<close> and \<^verbatim>\<open>nacl.box.open\<close> of \<^verbatim>\<open>lib/nacl-fast.js\<close>. Neither \<^verbatim>\<open>Buffer\<close> nor the
  library is among the source files, so the seven operations are the fields of a record the
  codec takes as a parameter. \<^verbatim>\<open>Buffer.from\<close> does not throw on a string, whatever its
  contents; the primitives may throw (on a buffer of the wrong size), and
  \<^verbatim>\<open>nacl.box.open\<close> returns \<^verbatim>\<open>null\<close>, here \<open>None\<close>, when authentication fails.
\<close>

type_synonym bytes = "8 word list"

record runtime =
  from_utf8 :: "jsstring \<Rightarrow> bytes"
  from_base64 :: "jsstring \<Rightarrow> bytes"
  from_hex :: "jsstring \<Rightarrow> bytes"
  to_base64 :: "bytes \<Rightarrow> jsstring"
  to_utf8 :: "bytes \<Rightarrow> jsstring"
  nacl_box :: "bytes \<Rightarrow> bytes \<Rightarrow> bytes \<Rightarrow> bytes \<Rightarrow> error + bytes"
  nacl_box_open :: "bytes \<Rightarrow> bytes \<Rightarrow> bytes \<Rightarrow> bytes \<Rightarrow> error + bytes option"

definition encrypt :: "runtime \<Rightarrow> jsstring \<Rightarrow> jsstring \<Rightarrow> jsstring \<Rightarrow> jsstring \<Rightarrow> error + jsstring" where
  "encrypt rt message nonce' theirPublicKey mySecretKey =
     (let msgBuff = from_utf8 rt message;
          nonceBuff = from_base64 rt nonce';
          theirPubBuff = from_base64 rt theirPublicKey;
          privBuff = from_hex rt mySecretKey
      in case nacl_box rt msgBuff nonceBuff theirPubBuff privBuff of
           Inl e \<Rightarrow> Inl e
         | Inr data \<Rightarrow> Inr (to_base64 rt data))"

text \<open>
  \<^verbatim>\<open>decrypt\<close> hands the result of \<^verbatim>\<open>nacl.box.open\<close> to \<^verbatim>\<open>Buffer.from\<close> without looking at it;
  \<^verbatim>\<open>Buffer.from(null)\<close> throws a \<^verbatim>\<open>TypeError\<close>.
\<close>

definition decrypt :: "runtime \<Rightarrow> jsstring \<Rightarrow> jsstring \<Rightarrow> jsstring \<Rightarrow> jsstring \<Rightarrow> error + jsstring" where
  "decrypt rt message nonce' theirPublicKey mySecretKey =
     (let msgBuff = from_base64 rt message;
          nonceBuff = from_base64 rt nonce';
          theirPubBuff = from_base64 rt theirPublicKey;
          privBuff = from_hex rt mySecretKey
      in case nacl_box_open rt msgBuff nonceBuff theirPubBuff privBuff of
           Inl e \<Rightarrow> Inl e
         | Inr None \<Rightarrow> Inl TypeError
         | Inr (Some data) \<Rightarrow> Inr (to_utf8 rt data))"

section \<open>Documents\<close>

text \<open>
  A document is a value as \<^verbatim>\<open>JSON.parse\<close> builds it. An object is the list of its own
  properties in the order \<^verbatim>\<open>for ... in\<close> visits them; an array is the list of its elements.
  A number is the value of a finite double (\<^verbatim>\<open>NaN\<close> and the infinities are not JSON); the
  walker only asks whether it is zero.
\<close>

datatype json = JNull | JBool bool | JNum real | JStr jsstring
  | JArr "json list" | JObj "(jsstring \<times> json) list"

type_synonym props = "(jsstring \<times> json) list"

fun truthy :: "json \<Rightarrow> bool" where
  "truthy JNull = False"
| "truthy (JBool b) = b"
| "truthy (JNum n) = (n \<noteq> 0)"
| "truthy (JStr s) = (s \<noteq> [])"
| "truthy (JArr xs) = True"
| "truthy (JObj ps) = True"

text \<open>\<^verbatim>\<open>typeof v === 'string'\<close>, the string itself, and \<^verbatim>\<open>typeof v === 'object'\<close>, which holds of
  \<^verbatim>\<open>null\<close> and of arrays as well as of objects.\<close>

definition is_string :: "json \<Rightarrow> bool" where
  "is_string v = (case v of JStr s \<Rightarrow> True | _ \<Rightarrow> False)"

definition string_of :: "json \<Rightarrow> jsstring" where
  "string_of v = (case v of JStr s \<Rightarrow> s | _ \<Rightarrow> [])"

definition typeof_object :: "json \<Rightarrow> bool" where
  "typeof_object v = (case v of JNull \<Rightarrow> True | JArr xs \<Rightarrow> True | JObj ps \<Rightarrow> True | _ \<Rightarrow> False)"

text \<open>
  \<^verbatim>\<open>!configJson[keyName]\<close> reads a property through the prototype chain. The object is a
  structured clone, a plain object, so a name that is not an own property is looked up in
  \<^verbatim>\<open>Object.prototype\<close>, whose twelve properties are all truthy (eleven functions, and the
  \<^verbatim>\<open>__proto__\<close> accessor, which returns the prototype).
\<close>

definition object_prototype_keys :: "jsstring list" where
  "object_prototype_keys = map js
     [''constructor'', ''__defineGetter__'', ''__defineSetter__'', ''hasOwnProperty'',
      ''__lookupGetter__'', ''__lookupSetter__'', ''isPrototypeOf'', ''propertyIsEnumerable'',
      ''toString'', ''valueOf'', ''__proto__'', ''toLocaleString'']"

definition truthy_lookup :: "props \<Rightarrow> jsstring \<Rightarrow> bool" where
  "truthy_lookup ps k =
     (case map_of ps k of Some v \<Rightarrow> truthy v | None \<Rightarrow> k \<in> set object_prototype_keys)"

text \<open>
  \<^verbatim>\<open>configJson[k] = v\<close>. An own property keeps its place. A new one is visited after the
  others, unless its name is an array index (a canonical decimal numeral below \<open>2^32 - 1\<close>):
  those come first, in ascending order.
\<close>

definition array_index :: "jsstring \<Rightarrow> nat option" where
  "array_index k =
     (if k \<noteq> [] \<and> list_all digit_class k \<and> (length k = 1 \<or> hd k \<noteq> of_char CHR ''0'')
         \<and> decimal k < 2 ^ 32 - 1
      then Some (decimal k) else None)"

fun insert_index :: "nat \<Rightarrow> jsstring \<Rightarrow> 'v \<Rightarrow> (jsstring \<times> 'v) list \<Rightarrow> (jsstring \<times> 'v) list" where
  "insert_index i k v [] = [(k, v)]"
| "insert_index i k v (p # ps) =
     (case array_index (fst p) of
        Some j \<Rightarrow> if j < i then p # insert_index i k v ps else (k, v) # p # ps
      | None \<Rightarrow> (k, v) # p # ps)"

definition set_prop :: "jsstring \<Rightarrow> 'v \<Rightarrow> (jsstring \<times> 'v) list \<Rightarrow> (jsstring \<times> 'v) list" where
  "set_prop k v ps =
     (if map_of ps k \<noteq> None then AList.update k v ps
      else case array_index k of
             Some i \<Rightarrow> insert_index i k v ps
           | None \<Rightarrow> ps @ [(k, v)])"

section \<open>The document walker\<close>

text \<open>
  The first branch of the loop body of \<^verbatim>\<open>processObjectFields\<close>, for a key that starts with an
  underscore:

  \<^verbatim>\<open>const keyName = key.slice(1)\<close>
  \<^verbatim>\<open>if (!configJson[keyName]) { configJson[keyName] = configJson[key] }\<close>

  The key comes from the loop, so it is an own property; were it not, nothing is assigned
  here (the source would assign \<^verbatim>\<open>undefined\<close>, which is not a value of a document).
\<close>

definition default_alias :: "jsstring \<Rightarrow> props \<Rightarrow> props" where
  "default_alias key configJson =
     (let keyName = drop 1 key in
      if \<not> truthy_lookup configJson keyName
      then (case map_of configJson key of
              Some v \<Rightarrow> set_prop keyName v configJson
            | None \<Rightarrow> configJson)
      else configJson)"

text \<open>
  The second branch, for a string that starts with \<^verbatim>\<open>EJ[\<close>:

  \<^verbatim>\<open>const parsed = parseEncryptedValue(configJson[key])\<close>
  \<^verbatim>\<open>configJson[key] = decrypt(parsed.box, parsed.nonce, parsed.encrypterPublic, privateKey)\<close>
\<close>

definition decrypt_value :: "runtime \<Rightarrow> jsstring \<Rightarrow> jsstring \<Rightarrow> error + jsstring" where
  "decrypt_value rt s privateKey =
     (case parseEncryptedValue s of
        Inl e \<Rightarrow> Inl e
      | Inr parsed \<Rightarrow> decrypt rt (box parsed) (nonce parsed) (encrypterPublic parsed) privateKey)"

text \<open>
  \<^verbatim>\<open>processObjectFields\<close> clones its argument and walks the clone. It never writes to
  anything but its own clone, and a clone shares nothing with what it was cloned from, so the
  function is a function from values to values: \<open>processObjectFields rt rawConf privateKey\<close>
  is the value it returns, or the exception it throws. (The same function over an explicit
  store, where the clone is an allocation, is in the section on the store.)

  \<open>process_keys rt keys configJson privateKey\<close> is the loop
  \<^verbatim>\<open>for (const key in configJson)\<close> from the point where \<open>keys\<close> are still to be visited and
  the clone holds \<open>configJson\<close>. The keys are fixed when the loop starts (a property added
  during the loop is not visited), while each value is read when its key is reached.

  \<open>process_elems\<close> is the same loop over an array, whose keys are its indices: none starts
  with an underscore, so the first branch is never taken, and each element is read and
  written at its own index, once.

  A value that is not an object is returned by \<^verbatim>\<open>structuredClone\<close> as it is, and the loop
  over it does nothing: a number, a boolean and \<^verbatim>\<open>null\<close> have no enumerable property, and the
  properties of a string are its characters, none of which starts with \<^verbatim>\<open>EJ[\<close>.
\<close>

function processObjectFields :: "runtime \<Rightarrow> json \<Rightarrow> jsstring \<Rightarrow> error + json"
  and process_keys :: "runtime \<Rightarrow> jsstring list \<Rightarrow> props \<Rightarrow> jsstring \<Rightarrow> error + props"
  and process_elems :: "runtime \<Rightarrow> json list \<Rightarrow> jsstring \<Rightarrow> error + json list"
where
  "processObjectFields rt (JObj ps) privateKey =
     (case process_keys rt (map fst ps) ps privateKey of
        Inl e \<Rightarrow> Inl e
      | Inr configJson \<Rightarrow> Inr (JObj configJson))"
| "processObjectFields rt (JArr xs) privateKey =
     (case process_elems rt xs privateKey of
        Inl e \<Rightarrow> Inl e
      | Inr configJson \<Rightarrow> Inr (JArr configJson))"
| "processObjectFields rt JNull privateKey = Inr JNull"
| "processObjectFields rt (JBool b) privateKey = Inr (JBool b)"
| "processObjectFields rt (JNum n) privateKey = Inr (JNum n)"
| "processObjectFields rt (JStr s) privateKey = Inr (JStr s)"
| "process_keys rt [] configJson privateKey = Inr configJson"
| "process_keys rt (key # keys) configJson privateKey =
     (if prefix (js ''_'') key
      then process_keys rt keys (default_alias key configJson) privateKey
      else case map_of configJson key of
        None \<Rightarrow> process_keys rt keys configJson privateKey
      | Some v \<Rightarrow>
          if is_string v \<and> prefix (js ''EJ['') (string_of v)
          then (case decrypt_value rt (string_of v) privateKey of
                  Inl e \<Rightarrow> Inl e
                | Inr plain \<Rightarrow>
                    process_keys rt keys (set_prop key (JStr plain) configJson) privateKey)
          else if typeof_object v
          then (case processObjectFields rt v privateKey of
                  Inl e \<Rightarrow> Inl e
                | Inr v' \<Rightarrow> process_keys rt keys (set_prop key v' configJson) privateKey)
          else process_keys rt keys configJson privateKey)"
| "process_elems rt [] privateKey = Inr []"
| "process_elems rt (x # xs) privateKey =
     (if is_string x \<and> prefix (js ''EJ['') (string_of x)
      then (case decrypt_value rt (string_of x) privateKey of
              Inl e \<Rightarrow> Inl e
            | Inr plain \<Rightarrow>
                (case process_elems rt xs privateKey of
                   Inl e \<Rightarrow> Inl e
                 | Inr xs' \<Rightarrow> Inr (JStr plain # xs')))
      else if typeof_object x
      then (case processObjectFields rt x privateKey of
              Inl e \<Rightarrow> Inl e
            | Inr x' \<Rightarrow>
                (case process_elems rt xs privateKey of
                   Inl e \<Rightarrow> Inl e
                 | Inr xs' \<Rightarrow> Inr (x' # xs')))
      else (case process_elems rt xs privateKey of
              Inl e \<Rightarrow> Inl e
            | Inr xs' \<Rightarrow> Inr (x # xs')))"
  by pat_completeness auto

text \<open>
  Termination. The loop reads the values the clone holds when a key is reached, and these
  may have been written by the loop; but no value it writes is nested deeper than the values
  that were there. The nesting depth of the argument bounds the recursion.
\<close>

fun depth :: "json \<Rightarrow> nat" where
  "depth (JArr xs) = Suc (foldr (\<lambda>x m. max (depth x) m) xs 0)"
| "depth (JObj ps) = Suc (foldr (\<lambda>p m. max (depth (snd p)) m) ps 0)"
| "depth v = 0"

definition elems_depth :: "json list \<Rightarrow> nat" where
  "elems_depth xs = foldr (\<lambda>x m. max (depth x) m) xs 0"

definition props_depth :: "props \<Rightarrow> nat" where
  "props_depth ps = foldr (\<lambda>p m. max (depth (snd p)) m) ps 0"

definition walker_measure ::
  "('r \<times> json \<times> 'k) + ('r \<times> jsstring list \<times> props \<times> 'k) + ('r \<times> json list \<times> 'k) \<Rightarrow> nat \<times> nat" where
  "walker_measure a =
     (case a of
        Inl (rt, v, pk) \<Rightarrow> (2 * depth v, 0)
      | Inr (Inl (rt, ks, cur, pk)) \<Rightarrow> (2 * props_depth cur + 1, length ks)
      | Inr (Inr (rt, xs, pk)) \<Rightarrow> (2 * elems_depth xs + 1, length xs))"

lemma props_depth_simps [simp]:
  "props_depth [] = 0"
  "props_depth (p # ps) = max (depth (snd p)) (props_depth ps)"
  by (simp_all add: props_depth_def)

lemma elems_depth_simps [simp]:
  "elems_depth [] = 0"
  "elems_depth (x # xs) = max (depth x) (elems_depth xs)"
  by (simp_all add: elems_depth_def)

lemma depth_JObj [simp]: "depth (JObj ps) = Suc (props_depth ps)"
  by (simp add: props_depth_def)

lemma depth_JArr [simp]: "depth (JArr xs) = Suc (elems_depth xs)"
  by (simp add: elems_depth_def)

declare depth.simps(1,2) [simp del]

lemma depth_lookup: "map_of ps k = Some v \<Longrightarrow> depth v \<le> props_depth ps"
  by (induction ps) (auto split: if_splits)

lemma props_depth_append [simp]:
  "props_depth (ps @ qs) = max (props_depth ps) (props_depth qs)"
  by (induction ps) auto

lemma props_depth_update: "props_depth (AList.update k v ps) \<le> max (depth v) (props_depth ps)"
  by (induction ps) auto

lemma props_depth_insert_index:
  "props_depth (insert_index i k v ps) = max (depth v) (props_depth ps)"
  by (induction ps) (auto split: option.splits)

lemma props_depth_set_prop: "props_depth (set_prop k v ps) \<le> max (depth v) (props_depth ps)"
  unfolding set_prop_def
  using props_depth_update [of k v ps]
  by (auto simp: props_depth_insert_index split: option.splits)

lemma props_depth_default_alias: "props_depth (default_alias key ps) \<le> props_depth ps"
proof -
  have "props_depth (set_prop k v ps) \<le> props_depth ps" if "map_of ps key = Some v" for k v
    using props_depth_set_prop [of k v ps] depth_lookup [OF that] by simp
  then show ?thesis
    by (auto simp: default_alias_def Let_def split: option.splits)
qed

lemma walker_depth_dom:
  "processObjectFields_process_keys_process_elems_dom (Inl (rt, v, pk)) \<Longrightarrow>
     (\<forall>v'. processObjectFields rt v pk = Inr v' \<longrightarrow> depth v' \<le> depth v)"
  "processObjectFields_process_keys_process_elems_dom (Inr (Inl (rt, ks, cur, pk))) \<Longrightarrow>
     (\<forall>cur'. process_keys rt ks cur pk = Inr cur' \<longrightarrow> props_depth cur' \<le> props_depth cur)"
  "processObjectFields_process_keys_process_elems_dom (Inr (Inr (rt, xs, pk))) \<Longrightarrow>
     (\<forall>xs'. process_elems rt xs pk = Inr xs' \<longrightarrow> elems_depth xs' \<le> elems_depth xs)"
proof (induction rule: processObjectFields_process_keys_process_elems.pinduct)
  case (1 rt ps privateKey)
  then show ?case by (auto simp: processObjectFields.psimps split: sum.splits)
next
  case (2 rt xs privateKey)
  then show ?case by (auto simp: processObjectFields.psimps split: sum.splits)
next
  case (8 rt key keys configJson privateKey)
  show ?case
  proof (intro allI impI)
    fix cur' assume r: "process_keys rt (key # keys) configJson privateKey = Inr cur'"
    note ps = process_keys.psimps(2) [OF 8(1)]
    show "props_depth cur' \<le> props_depth configJson"
    proof (cases "prefix (js ''_'') key")
      case True
      then have "process_keys rt keys (default_alias key configJson) privateKey = Inr cur'"
        using r ps by simp
      then have "props_depth cur' \<le> props_depth (default_alias key configJson)"
        using 8(2) True by blast
      then show ?thesis using props_depth_default_alias [of key configJson] by linarith
    next
      case False
      show ?thesis
      proof (cases "map_of configJson key")
        case None
        then show ?thesis using r ps False 8(3) by simp
      next
        case (Some v)
        note lk = depth_lookup [OF Some]
        consider (str) "is_string v \<and> prefix (js ''EJ['') (string_of v)"
          | (obj) "\<not> (is_string v \<and> prefix (js ''EJ['') (string_of v))" "typeof_object v"
          | (other) "\<not> (is_string v \<and> prefix (js ''EJ['') (string_of v))" "\<not> typeof_object v"
          by blast
        then show ?thesis
        proof cases
          case str
          then obtain plain where d: "decrypt_value rt (string_of v) privateKey = Inr plain"
            and c: "process_keys rt keys (set_prop key (JStr plain) configJson) privateKey = Inr cur'"
            using r ps False Some by (auto split: sum.splits)
          have "props_depth cur' \<le> props_depth (set_prop key (JStr plain) configJson)"
            using 8(4) [OF False Some str d] c by blast
          then show ?thesis using props_depth_set_prop [of key "JStr plain" configJson] by simp
        next
          case obj
          then obtain v' where d: "processObjectFields rt v privateKey = Inr v'"
            and c: "process_keys rt keys (set_prop key v' configJson) privateKey = Inr cur'"
            using r ps False Some by (auto split: sum.splits)
          have "depth v' \<le> depth v" using 8(5) [OF False Some obj] d by blast
          moreover have "props_depth cur' \<le> props_depth (set_prop key v' configJson)"
            using 8(6) [OF False Some obj d] c by blast
          ultimately show ?thesis using props_depth_set_prop [of key v' configJson] lk
            by (auto simp: max_def split: if_splits)
        next
          case other
          then have "process_keys rt keys configJson privateKey = Inr cur'"
            using r ps False Some by auto
          then show ?thesis using 8(7) [OF False Some other] by blast
        qed
      qed
    qed
  qed
next
  case (10 rt x xs privateKey)
  show ?case
  proof (intro allI impI)
    fix xs' assume r: "process_elems rt (x # xs) privateKey = Inr xs'"
    note ps = process_elems.psimps(2) [OF 10(1)]
    consider (str) "is_string x \<and> prefix (js ''EJ['') (string_of x)"
      | (obj) "\<not> (is_string x \<and> prefix (js ''EJ['') (string_of x))" "typeof_object x"
      | (other) "\<not> (is_string x \<and> prefix (js ''EJ['') (string_of x))" "\<not> typeof_object x"
      by blast
    then show "elems_depth xs' \<le> elems_depth (x # xs)"
    proof cases
      case str
      then obtain plain ys where d: "decrypt_value rt (string_of x) privateKey = Inr plain"
        and c: "process_elems rt xs privateKey = Inr ys" and e: "xs' = JStr plain # ys"
        using r ps by (auto split: sum.splits)
      have "elems_depth ys \<le> elems_depth xs" using 10(2) [OF str d] c by blast
      then show ?thesis using e by (auto simp: max_def)
    next
      case obj
      then obtain x' ys where d: "processObjectFields rt x privateKey = Inr x'"
        and c: "process_elems rt xs privateKey = Inr ys" and e: "xs' = x' # ys"
        using r ps by (auto split: sum.splits)
      have "depth x' \<le> depth x" using 10(3) [OF obj] d by blast
      moreover have "elems_depth ys \<le> elems_depth xs" using 10(4) [OF obj d] c by blast
      ultimately show ?thesis using e by (auto simp: max_def)
    next
      case other
      then obtain ys where c: "process_elems rt xs privateKey = Inr ys" and e: "xs' = x # ys"
        using r ps by (auto split: sum.splits)
      have "elems_depth ys \<le> elems_depth xs" using 10(5) [OF other] c by blast
      then show ?thesis using e by (auto simp: max_def)
    qed
  qed
qed (auto simp: processObjectFields.psimps process_keys.psimps process_elems.psimps)

termination processObjectFields
proof (relation "inv_image (less_than <*lex*> less_than) walker_measure", goal_cases)
  case 1
  show ?case by (intro wf_inv_image wf_lex_prod wf_less_than)
next
  case (3 rt xs privateKey)
  then show ?case by (simp add: walker_measure_def)
next
  case (2 rt ps privateKey)
  then show ?case by (simp add: walker_measure_def)
next
  case (4 rt key keys configJson privateKey)
  then show ?case
    using props_depth_default_alias [of key configJson]
    by (auto simp: walker_measure_def)
next
  case (5 rt key keys configJson privateKey)
  then show ?case by (simp add: walker_measure_def)
next
  case (6 rt key keys configJson privateKey x2 b)
  then show ?case
    using props_depth_set_prop [of key "JStr b" configJson]
    by (auto simp: walker_measure_def)
next
  case (7 rt key keys configJson privateKey x2)
  then show ?case using depth_lookup [of configJson key x2]
    by (auto simp: walker_measure_def)
next
  case (8 rt key keys configJson privateKey x2 b)
  then have "depth b \<le> depth x2" using walker_depth_dom(1) by blast
  then show ?case
    using props_depth_set_prop [of key b configJson] depth_lookup [of configJson key x2] 8
    by (auto simp: walker_measure_def)
next
  case (9 rt key keys configJson privateKey x2)
  then show ?case by (simp add: walker_measure_def)
next
  case (10 rt x xs privateKey b)
  then show ?case by (auto simp: walker_measure_def)
next
  case (11 rt x xs privateKey)
  then show ?case by (auto simp: walker_measure_def)
next
  case (12 rt x xs privateKey b)
  then show ?case by (auto simp: walker_measure_def)
next
  case (13 rt x xs privateKey)
  then show ?case by (auto simp: walker_measure_def)
qed

section \<open>processEjson\<close>

text \<open>
  \<^verbatim>\<open>const privateKey = await conf.getPrivateKey(rawConf['_public_key'], conf)\<close>
  \<^verbatim>\<open>return processObjectFields(rawConf, privateKey)\<close>

  \<open>rawConf\<close> is the document \<^verbatim>\<open>getConfigJson\<close> returned (reading the file is outside the
  model) and \<open>getPrivateKey\<close> the resolver of the merged configuration. The resolver is given
  the value of the property, \<open>None\<close> for \<^verbatim>\<open>undefined\<close>, and returns the private key or throws.
  Reading a property of \<^verbatim>\<open>null\<close> throws a \<^verbatim>\<open>TypeError\<close>; an array, a string, a number and a
  boolean have no property \<^verbatim>\<open>_public_key\<close>, and neither has \<^verbatim>\<open>Object.prototype\<close>.

  The result records the outcome and the arguments of the calls made to the resolver, in
  order.
\<close>

definition public_key_field :: "json \<Rightarrow> error + json option" where
  "public_key_field rawConf =
     (case rawConf of
        JNull \<Rightarrow> Inl TypeError
      | JObj ps \<Rightarrow> Inr (map_of ps (js ''_public_key''))
      | _ \<Rightarrow> Inr None)"

record run =
  outcome :: "error + json"
  resolver_calls :: "json option list"

definition processEjson :: "runtime \<Rightarrow> (json option \<Rightarrow> error + jsstring) \<Rightarrow> json \<Rightarrow> run" where
  "processEjson rt getPrivateKey rawConf =
     (case public_key_field rawConf of
        Inl e \<Rightarrow> \<lparr>outcome = Inl e, resolver_calls = []\<rparr>
      | Inr publicKey \<Rightarrow>
          (case getPrivateKey publicKey of
             Inl e \<Rightarrow> \<lparr>outcome = Inl e, resolver_calls = [publicKey]\<rparr>
           | Inr privateKey \<Rightarrow>
               \<lparr>outcome = processObjectFields rt rawConf privateKey,
                resolver_calls = [publicKey]\<rparr>))"

section \<open>The loop, one key at a time\<close>

text \<open>
  \<open>visit\<close> is one pass through the loop body, and \<open>process_value\<close> what its second and third
  branch make of the value they read. Both are read off the equations of \<open>process_keys\<close> and
  \<open>process_elems\<close>, which are restated in their terms below.
\<close>

definition encrypted :: "json \<Rightarrow> bool" where
  "encrypted v = (is_string v \<and> prefix (js ''EJ['') (string_of v))"

definition process_value :: "runtime \<Rightarrow> json \<Rightarrow> jsstring \<Rightarrow> error + json" where
  "process_value rt v privateKey =
     (if encrypted v
      then (case decrypt_value rt (string_of v) privateKey of
              Inl e \<Rightarrow> Inl e
            | Inr plain \<Rightarrow> Inr (JStr plain))
      else if typeof_object v then processObjectFields rt v privateKey
      else Inr v)"

definition visit :: "runtime \<Rightarrow> jsstring \<Rightarrow> props \<Rightarrow> jsstring \<Rightarrow> error + props" where
  "visit rt key configJson privateKey =
     (if prefix (js ''_'') key then Inr (default_alias key configJson)
      else case map_of configJson key of
        None \<Rightarrow> Inr configJson
      | Some v \<Rightarrow>
          if encrypted v
          then (case decrypt_value rt (string_of v) privateKey of
                  Inl e \<Rightarrow> Inl e
                | Inr plain \<Rightarrow> Inr (set_prop key (JStr plain) configJson))
          else if typeof_object v
          then (case processObjectFields rt v privateKey of
                  Inl e \<Rightarrow> Inl e
                | Inr v' \<Rightarrow> Inr (set_prop key v' configJson))
          else Inr configJson)"

lemma process_keys_Cons:
  "process_keys rt (key # keys) configJson privateKey =
     (case visit rt key configJson privateKey of
        Inl e \<Rightarrow> Inl e
      | Inr configJson' \<Rightarrow> process_keys rt keys configJson' privateKey)"
  by (simp add: visit_def encrypted_def split: option.splits sum.splits)

lemma process_elems_Cons:
  "process_elems rt (x # xs) privateKey =
     (case process_value rt x privateKey of
        Inl e \<Rightarrow> Inl e
      | Inr x' \<Rightarrow>
          (case process_elems rt xs privateKey of
             Inl e \<Rightarrow> Inl e
           | Inr xs' \<Rightarrow> Inr (x' # xs')))"
  by (simp add: process_value_def encrypted_def split: sum.splits)

declare process_keys.simps(2) [simp del]
declare process_elems.simps(2) [simp del]

lemma process_keys_append:
  "process_keys rt (ks1 @ ks2) cur pk =
     (case process_keys rt ks1 cur pk of
        Inl e \<Rightarrow> Inl e
      | Inr cur' \<Rightarrow> process_keys rt ks2 cur' pk)"
  by (induction ks1 arbitrary: cur) (auto simp: process_keys_Cons split: sum.splits)

lemma process_elems_append:
  "process_elems rt (xs1 @ xs2) pk =
     (case process_elems rt xs1 pk of
        Inl e \<Rightarrow> Inl e
      | Inr ys1 \<Rightarrow>
          (case process_elems rt xs2 pk of
             Inl e \<Rightarrow> Inl e
           | Inr ys2 \<Rightarrow> Inr (ys1 @ ys2)))"
  by (induction xs1) (auto simp: process_elems_Cons split: sum.splits)

lemma process_keys_invariant:
  assumes step: "\<And>k cur cur'. I cur \<Longrightarrow> visit rt k cur pk = Inr cur' \<Longrightarrow> I cur'"
    and "I cur" and "process_keys rt ks cur pk = Inr cur'"
  shows "I cur'"
  using assms(2,3)
proof (induction ks arbitrary: cur)
  case Nil
  then show ?case by simp
next
  case (Cons k ks)
  from Cons.prems(2) obtain cur1 where v: "visit rt k cur pk = Inr cur1"
    and r: "process_keys rt ks cur1 pk = Inr cur'"
    by (auto simp: process_keys_Cons split: sum.splits)
  from step [OF Cons.prems(1) v] have "I cur1" .
  then show ?case using Cons.IH r by blast
qed

subsection \<open>Reading and writing properties\<close>

lemma map_of_insert_index:
  "map_of ps k = None \<Longrightarrow> map_of (insert_index i k v ps) = (map_of ps)(k \<mapsto> v)"
proof (induction ps)
  case Nil
  then show ?case by simp
next
  case (Cons p ps)
  obtain k' v' where p: "p = (k', v')" by (cases p)
  with Cons.prems have ne: "k' \<noteq> k" and n: "map_of ps k = None" by (auto split: if_splits)
  show ?case using Cons.IH [OF n] ne p
    by (auto simp: fun_eq_iff split: option.splits)
qed

lemma map_of_set_prop: "map_of (set_prop k v ps) = (map_of ps)(k \<mapsto> v)"
proof (cases "map_of ps k")
  case None
  then have "map_of (ps @ [(k, v)]) = (map_of ps)(k \<mapsto> v)"
    by (auto simp: fun_eq_iff map_add_def split: option.splits)
  then show ?thesis using None
    by (simp add: set_prop_def map_of_insert_index split: option.splits)
next
  case (Some a)
  then show ?thesis by (simp add: set_prop_def update_conv')
qed

lemma set_prop_same: "map_of ps k = Some v \<Longrightarrow> set_prop k v ps = ps"
  by (simp add: set_prop_def update_triv)

lemma map_of_default_alias:
  "map_of (default_alias key ps) =
     (if \<not> truthy_lookup ps (drop 1 key) \<and> map_of ps key \<noteq> None
      then (map_of ps)(drop 1 key := map_of ps key) else map_of ps)"
  by (auto simp: default_alias_def Let_def map_of_set_prop split: option.splits)

lemma visit_value:
  "\<not> prefix (js ''_'') key \<Longrightarrow> map_of cur key = Some v \<Longrightarrow>
   visit rt key cur pk =
     (case process_value rt v pk of Inl e \<Rightarrow> Inl e | Inr v' \<Rightarrow> Inr (set_prop key v' cur))"
  by (auto simp: visit_def process_value_def set_prop_same split: sum.splits)

lemma underscore_key: "prefix (js ''_'') key \<Longrightarrow> key = js ''_'' @ drop 1 key"
  by (auto simp: prefix_def js_lits)

lemma process_value_scalar:
  "\<not> encrypted v \<Longrightarrow> \<not> typeof_object v \<Longrightarrow> process_value rt v pk = Inr v"
  by (simp add: process_value_def)

lemma process_value_JNull [simp]: "process_value rt JNull pk = Inr JNull"
  by (simp add: process_value_def encrypted_def is_string_def typeof_object_def)

lemma default_alias_lookup:
  "map_of (default_alias key ps) k' =
     (if k' = drop 1 key \<and> \<not> truthy_lookup ps (drop 1 key) \<and> map_of ps key \<noteq> None
      then map_of ps key else map_of ps k')"
  by (auto simp: map_of_default_alias)

lemma plain_text_value:
  assumes "\<not> prefix (js ''EJ['') pk"
  shows "process_value rt (JStr pk) privateKey = Inr (JStr pk)"
  using assms
  by (simp add: process_value_def encrypted_def is_string_def string_of_def typeof_object_def)

lemma falsy_value:
  assumes "\<not> truthy v" and "process_value rt v privateKey = Inr v'"
  shows "\<not> truthy v'"
proof (cases v)
  case (JStr s)
  then have s: "s = []" using assms(1) by simp
  then have "\<not> encrypted v" using JStr
    by (simp add: encrypted_def string_of_def js_def prefix_def)
  then have "v' = v" using assms(2) JStr by (simp add: process_value_def typeof_object_def)
  then show ?thesis using assms(1) by simp
qed (use assms in \<open>auto simp: process_value_def encrypted_def is_string_def typeof_object_def\<close>)


subsection \<open>Failure, arrays and scalars\<close>

lemma visit_Inl_iff:
  "visit rt k cur pk = Inl e \<longleftrightarrow>
     \<not> prefix (js ''_'') k \<and> (\<exists>v. map_of cur k = Some v \<and> process_value rt v pk = Inl e)"
proof (cases "prefix (js ''_'') k")
  case True
  then show ?thesis by (simp add: visit_def)
next
  case False
  show ?thesis
  proof (cases "map_of cur k")
    case None
    then show ?thesis using False by (simp add: visit_def)
  next
    case (Some v)
    show ?thesis using False Some
      by (simp add: visit_value [OF False Some] split: sum.splits)
  qed
qed

lemma process_value_Inl_iff:
  "process_value rt v pk = Inl e \<longleftrightarrow>
     (if encrypted v then decrypt_value rt (string_of v) pk = Inl e
      else typeof_object v \<and> processObjectFields rt v pk = Inl e)"
  by (auto simp: process_value_def split: sum.splits)

lemma decrypt_value_Inl_iff:
  "decrypt_value rt s pk = Inl e \<longleftrightarrow>
     parseEncryptedValue s = Inl e \<or>
     (\<exists>t. parseEncryptedValue s = Inr t \<and>
          decrypt rt (box t) (nonce t) (encrypterPublic t) pk = Inl e)"
  by (auto simp: decrypt_value_def split: sum.splits)

lemma process_keys_abort:
  assumes "process_keys rt ks1 cur pk = Inr cur1" and "visit rt k cur1 pk = Inl e"
  shows "process_keys rt (ks1 @ k # ks2) cur pk = Inl e"
  using assms by (simp add: process_keys_append process_keys_Cons)

lemma process_elems_abort:
  assumes "process_elems rt xs1 pk = Inr ys1" and "process_value rt x pk = Inl e"
  shows "process_elems rt (xs1 @ x # xs2) pk = Inl e"
  using assms by (simp add: process_elems_append process_elems_Cons)

lemma process_elems_nth:
  "process_elems rt xs pk = Inr ys \<longleftrightarrow>
     length ys = length xs \<and> (\<forall>i < length xs. process_value rt (xs ! i) pk = Inr (ys ! i))"
proof (induction xs arbitrary: ys)
  case Nil
  then show ?case by auto
next
  case (Cons x xs)
  show ?case
  proof
    assume "process_elems rt (x # xs) pk = Inr ys"
    then obtain x' ys' where h: "process_value rt x pk = Inr x'" "process_elems rt xs pk = Inr ys'"
      "ys = x' # ys'"
      by (auto simp: process_elems_Cons split: sum.splits)
    then have "length ys' = length xs" "\<forall>i < length xs. process_value rt (xs ! i) pk = Inr (ys' ! i)"
      using Cons.IH by auto
    then show "length ys = length (x # xs) \<and>
        (\<forall>i < length (x # xs). process_value rt ((x # xs) ! i) pk = Inr (ys ! i))"
      using h by (auto simp: nth_Cons split: nat.splits)
  next
    assume a: "length ys = length (x # xs) \<and>
        (\<forall>i < length (x # xs). process_value rt ((x # xs) ! i) pk = Inr (ys ! i))"
    then obtain x' ys' where y: "ys = x' # ys'" by (cases ys) auto
    have "process_value rt x pk = Inr x'" using a y by auto
    moreover have "length ys' = length xs \<and> (\<forall>i < length xs. process_value rt (xs ! i) pk = Inr (ys' ! i))"
      using a y by auto
    then have "process_elems rt xs pk = Inr ys'" using Cons.IH by blast
    ultimately show "process_elems rt (x # xs) pk = Inr ys"
      using y by (simp add: process_elems_Cons)
  qed
qed

definition scalar :: "json \<Rightarrow> bool" where
  "scalar v = (case v of JNull \<Rightarrow> True | JBool b \<Rightarrow> True | JNum n \<Rightarrow> True | _ \<Rightarrow> False)"

lemma scalar_value: "scalar v \<Longrightarrow> process_value rt v pk = Inr v"
  by (cases v) (auto simp: scalar_def process_value_def encrypted_def is_string_def typeof_object_def)


lemma scalar_visit:
  "\<not> prefix (js ''_'') k \<Longrightarrow> map_of cur k = Some v \<Longrightarrow> scalar v \<Longrightarrow> visit rt k cur pk = Inr cur"
  by (simp add: visit_value scalar_value set_prop_same)

text \<open>The walker never returns a value nested deeper than the one it was given.\<close>

lemma walker_depth_all:
  "\<forall>v'. processObjectFields rt v pk = Inr v' \<longrightarrow> depth v' \<le> depth v"
  "\<forall>cur'. process_keys rt ks cur pk = Inr cur' \<longrightarrow> props_depth cur' \<le> props_depth cur"
  "\<forall>xs'. process_elems rt xs pk = Inr xs' \<longrightarrow> elems_depth xs' \<le> elems_depth xs"
proof (induction rule: processObjectFields_process_keys_process_elems.induct)
  case (1 rt ps privateKey)
  then show ?case by (auto simp: processObjectFields.simps split: sum.splits)
next
  case (2 rt xs privateKey)
  then show ?case by (auto simp: processObjectFields.simps split: sum.splits)
next
  case (8 rt key keys configJson privateKey)
  show ?case
  proof (intro allI impI)
    fix cur' assume r: "process_keys rt (key # keys) configJson privateKey = Inr cur'"
    note ps = process_keys.simps(2)
    show "props_depth cur' \<le> props_depth configJson"
    proof (cases "prefix (js ''_'') key")
      case True
      then have "process_keys rt keys (default_alias key configJson) privateKey = Inr cur'"
        using r ps by simp
      then have "props_depth cur' \<le> props_depth (default_alias key configJson)"
        using "8.IH"(1) True by blast
      then show ?thesis using props_depth_default_alias [of key configJson] by linarith
    next
      case False
      show ?thesis
      proof (cases "map_of configJson key")
        case None
        then show ?thesis using r ps False "8.IH"(2) by simp
      next
        case (Some v)
        note lk = depth_lookup [OF Some]
        consider (str) "is_string v \<and> prefix (js ''EJ['') (string_of v)"
          | (obj) "\<not> (is_string v \<and> prefix (js ''EJ['') (string_of v))" "typeof_object v"
          | (other) "\<not> (is_string v \<and> prefix (js ''EJ['') (string_of v))" "\<not> typeof_object v"
          by blast
        then show ?thesis
        proof cases
          case str
          then obtain plain where d: "decrypt_value rt (string_of v) privateKey = Inr plain"
            and c: "process_keys rt keys (set_prop key (JStr plain) configJson) privateKey = Inr cur'"
            using r ps False Some by (auto split: sum.splits)
          have "props_depth cur' \<le> props_depth (set_prop key (JStr plain) configJson)"
            using "8.IH"(3) [OF False Some str d] c by blast
          then show ?thesis using props_depth_set_prop [of key "JStr plain" configJson] by simp
        next
          case obj
          then obtain v' where d: "processObjectFields rt v privateKey = Inr v'"
            and c: "process_keys rt keys (set_prop key v' configJson) privateKey = Inr cur'"
            using r ps False Some by (auto split: sum.splits)
          have "depth v' \<le> depth v" using "8.IH"(4) [OF False Some obj] d by blast
          moreover have "props_depth cur' \<le> props_depth (set_prop key v' configJson)"
            using "8.IH"(5) [OF False Some obj d] c by blast
          ultimately show ?thesis using props_depth_set_prop [of key v' configJson] lk
            by (auto simp: max_def split: if_splits)
        next
          case other
          then have "process_keys rt keys configJson privateKey = Inr cur'"
            using r ps False Some by auto
          then show ?thesis using "8.IH"(6) [OF False Some other] by blast
        qed
      qed
    qed
  qed
next
  case (10 rt x xs privateKey)
  show ?case
  proof (intro allI impI)
    fix xs' assume r: "process_elems rt (x # xs) privateKey = Inr xs'"
    note ps = process_elems.simps(2)
    consider (str) "is_string x \<and> prefix (js ''EJ['') (string_of x)"
      | (obj) "\<not> (is_string x \<and> prefix (js ''EJ['') (string_of x))" "typeof_object x"
      | (other) "\<not> (is_string x \<and> prefix (js ''EJ['') (string_of x))" "\<not> typeof_object x"
      by blast
    then show "elems_depth xs' \<le> elems_depth (x # xs)"
    proof cases
      case str
      then obtain plain ys where d: "decrypt_value rt (string_of x) privateKey = Inr plain"
        and c: "process_elems rt xs privateKey = Inr ys" and e: "xs' = JStr plain # ys"
        using r ps by (auto split: sum.splits)
      have "elems_depth ys \<le> elems_depth xs" using "10.IH"(1) [OF str d] c by blast
      then show ?thesis using e by (auto simp: max_def)
    next
      case obj
      then obtain x' ys where d: "processObjectFields rt x privateKey = Inr x'"
        and c: "process_elems rt xs privateKey = Inr ys" and e: "xs' = x' # ys"
        using r ps by (auto split: sum.splits)
      have "depth x' \<le> depth x" using "10.IH"(2) [OF obj] d by blast
      moreover have "elems_depth ys \<le> elems_depth xs" using "10.IH"(3) [OF obj d] c by blast
      ultimately show ?thesis using e by (auto simp: max_def)
    next
      case other
      then obtain ys where c: "process_elems rt xs privateKey = Inr ys" and e: "xs' = x # ys"
        using r ps by (auto split: sum.splits)
      have "elems_depth ys \<le> elems_depth xs" using "10.IH"(4) [OF other] c by blast
      then show ?thesis using e by (auto simp: max_def)
    qed
  qed
qed (auto simp: processObjectFields.simps process_keys.simps process_elems.simps)

lemma walker_depth:
  "processObjectFields rt v pk = Inr v' \<Longrightarrow> depth v' \<le> depth v"
  "process_keys rt ks cur pk = Inr cur' \<Longrightarrow> props_depth cur' \<le> props_depth cur"
  "process_elems rt xs pk = Inr xs' \<Longrightarrow> elems_depth xs' \<le> elems_depth xs"
  using walker_depth_all by blast+

text \<open>
  What the whole loop does to one value. A value that its own visit hands back as it is (a
  number, a boolean, a null, a string that does not start with \<^verbatim>\<open>EJ[\<close>) can change in one way
  only: the first branch, at the key \<^verbatim>\<open>_k\<close>, assigns to \<open>k\<close> when the value of \<open>k\<close> is falsy. So
  it is still the value of \<open>k\<close> after the loop when it is truthy, or when \<^verbatim>\<open>_k\<close> is not among
  the keys that the loop visits; and the visit of \<^verbatim>\<open>_k\<close> replaces a falsy one.
\<close>

lemma value_kept:
  assumes "process_keys rt ks cur pk = Inr cur'" and "map_of cur k = Some v"
    and "process_value rt v pk = Inr v" and "truthy v \<or> js ''_'' @ k \<notin> set ks"
  shows "map_of cur' k = Some v"
  using assms(1,2,4)
proof (induction ks arbitrary: cur)
  case Nil
  then show ?case by simp
next
  case (Cons k' ks)
  from Cons.prems(1) obtain c where v: "visit rt k' cur pk = Inr c"
    and w: "process_keys rt ks c pk = Inr cur'"
    by (auto simp: process_keys_Cons split: sum.splits)
  have "map_of c k = Some v"
  proof (cases "prefix (js ''_'') k'")
    case True
    then have c: "c = default_alias k' cur" using v by (simp add: visit_def)
    have "truthy_lookup cur k" if "k = drop 1 k'"
    proof -
      from that True have "k' = js ''_'' @ k" using underscore_key by simp
      then have "truthy v" using Cons.prems(3) by auto
      then show ?thesis using Cons.prems(2) by (simp add: truthy_lookup_def)
    qed
    then show ?thesis unfolding c using Cons.prems(2) by (auto simp: default_alias_lookup)
  next
    case False
    show ?thesis
    proof (cases "map_of cur k'")
      case None
      then show ?thesis using v Cons.prems(2) False by (simp add: visit_def)
    next
      case (Some x)
      then obtain x' where p: "process_value rt x pk = Inr x'" and c: "c = set_prop k' x' cur"
        using v False by (auto simp: visit_value split: sum.splits)
      show ?thesis
      proof (cases "k' = k")
        case True
        then have "x = v" using Some Cons.prems(2) by simp
        then have "x' = v" using p assms(3) by simp
        then show ?thesis unfolding c using True by (simp add: map_of_set_prop)
      next
        case False
        then show ?thesis unfolding c using Cons.prems(2) by (simp add: map_of_set_prop)
      qed
    qed
  qed
  moreover have "truthy v \<or> js ''_'' @ k \<notin> set ks" using Cons.prems(3) by auto
  ultimately show ?case using Cons.IH [OF w] by blast
qed

lemma falsy_value_replaced:
  assumes "map_of cur k = Some v" and "\<not> truthy v" and "map_of cur (js ''_'' @ k) = Some w"
  shows "visit rt (js ''_'' @ k) cur pk = Inr (set_prop k w cur)"
  using assms
  by (simp add: visit_def default_alias_def truthy_lookup_def Let_def js_lits)

section \<open>A runtime to compute with\<close>

text \<open>
  The theorems below hold for every runtime. To run the definitions on a concrete document
  the parameters need values, and \<open>demo_runtime\<close> supplies them: its conversions keep the low
  byte of each code unit, and its box prefixes the message with one byte computed from the two
  keys and with the nonce, which \<open>demo_box_open\<close> checks and strips. It stands for neither
  \<^verbatim>\<open>Buffer\<close> nor NaCl; it is what the examples are evaluated with.
\<close>

definition demo_shared :: "bytes \<Rightarrow> bytes \<Rightarrow> bytes" where
  "demo_shared pk sk = [sum_list pk + sum_list sk]"

definition demo_box :: "bytes \<Rightarrow> bytes \<Rightarrow> bytes \<Rightarrow> bytes \<Rightarrow> error + bytes" where
  "demo_box m n pk sk = Inr (demo_shared pk sk @ n @ m)"

definition demo_box_open :: "bytes \<Rightarrow> bytes \<Rightarrow> bytes \<Rightarrow> bytes \<Rightarrow> error + bytes option" where
  "demo_box_open c n pk sk =
     (if prefix (demo_shared pk sk @ n) c
      then Inr (Some (drop (length (demo_shared pk sk @ n)) c))
      else Inr None)"

definition demo_runtime :: runtime where
  "demo_runtime =
     \<lparr>from_utf8 = map ucast, from_base64 = map ucast, from_hex = map ucast,
      to_base64 = map ucast, to_utf8 = map ucast,
      nacl_box = demo_box, nacl_box_open = demo_box_open\<rparr>"

text \<open>
  A token that the stand-in opens with the key \<^verbatim>\<open>H\<close>, to the text \<^verbatim>\<open>hello\<close>, and a string that
  starts like a token and is none.
\<close>

definition demo_token :: jsstring where
  "demo_token = js ''EJ[1:AAAAAAAAAAAAAAAAAAAAAAAAAAAAAAAAAAAAAAAAAAAA:NNNNNNNNNNNNNNNNNNNNNNNNNNNNNNNN:tNNNNNNNNNNNNNNNNNNNNNNNNNNNNNNNNhello]''"

definition demo_key :: jsstring where
  "demo_key = js ''H''"

lemma demo_token_plain: "decrypt_value demo_runtime demo_token demo_key = Inr (js ''hello'')"
  by (simp add: decrypt_value_def parseEncryptedValue_def str_match_def ejsonRegex_def
      demo_token_def demo_key_def js_def prefix_def digit_class_def base64_class_def in_range_def
      dot_class_def line_terminator_def decrypt_def demo_runtime_def demo_box_open_def
      demo_shared_def parseInt_def decimal_def)

lemma demo_token_encrypted: "encrypted (JStr demo_token)"
  by (simp add: encrypted_def is_string_def string_of_def demo_token_def js_def prefix_def)

lemma malformed_token:
  "encrypted (JStr (js ''EJ[x]''))"
  "decrypt_value rt (js ''EJ[x]'') pk = Inl (Error (js ''Invalid EJSON: EJ[x]''))"
  by (simp_all add: encrypted_def is_string_def string_of_def
      decrypt_value_def parseEncryptedValue_def str_match_def ejsonRegex_def
      js_def prefix_def digit_class_def in_range_def)

section \<open>The walker over a store\<close>

text \<open>
  Whether the walker changes the object it is given is a question about objects, not values.
  Here the objects live in a store: a list of cells, the address of a cell being its index,
  and a new object taking the next free address. A value is a scalar or the address of an
  object or array.
\<close>

datatype val = VNull | VBool bool | VNum real | VStr jsstring | VRef nat

datatype cell = Obj "(jsstring \<times> val) list" | Arr "val list"

type_synonym store = "cell list"

fun vtruthy :: "val \<Rightarrow> bool" where
  "vtruthy VNull = False"
| "vtruthy (VBool b) = b"
| "vtruthy (VNum n) = (n \<noteq> 0)"
| "vtruthy (VStr s) = (s \<noteq> [])"
| "vtruthy (VRef a) = True"

definition v_encrypted :: "val \<Rightarrow> bool" where
  "v_encrypted v = (case v of VStr s \<Rightarrow> prefix (js ''EJ['') s | _ \<Rightarrow> False)"

definition v_string_of :: "val \<Rightarrow> jsstring" where
  "v_string_of v = (case v of VStr s \<Rightarrow> s | _ \<Rightarrow> [])"

definition v_typeof_object :: "val \<Rightarrow> bool" where
  "v_typeof_object v = (case v of VNull \<Rightarrow> True | VRef a \<Rightarrow> True | _ \<Rightarrow> False)"

definition props_of :: "cell \<Rightarrow> (jsstring \<times> val) list" where
  "props_of c = (case c of Obj vs \<Rightarrow> vs | Arr xs \<Rightarrow> [])"

definition elems_of :: "cell \<Rightarrow> val list" where
  "elems_of c = (case c of Arr xs \<Rightarrow> xs | Obj vs \<Rightarrow> [])"

definition v_truthy_lookup :: "(jsstring \<times> val) list \<Rightarrow> jsstring \<Rightarrow> bool" where
  "v_truthy_lookup vs k =
     (case map_of vs k of Some v \<Rightarrow> vtruthy v | None \<Rightarrow> k \<in> set object_prototype_keys)"

definition v_default_alias :: "jsstring \<Rightarrow> (jsstring \<times> val) list \<Rightarrow> (jsstring \<times> val) list" where
  "v_default_alias key vs =
     (let keyName = drop 1 key in
      if \<not> v_truthy_lookup vs keyName
      then (case map_of vs key of
              Some v \<Rightarrow> set_prop keyName v vs
            | None \<Rightarrow> vs)
      else vs)"

text \<open>
  \<^verbatim>\<open>structuredClone\<close> copies a value into new objects, children before their parent. (The
  platform's algorithm keeps, inside the copy, whatever sharing the original has; the walker
  writes to the root of the copy only and hands every child to a call that clones it again,
  so the copy is laid out as a tree.) The first argument bounds the nesting that is followed:
  \<open>None\<close> means that the value is nested deeper, as a cyclic one is, or refers to an address
  outside the store, as no value of a program does.
\<close>

function (sequential) s_clone :: "nat \<Rightarrow> store \<Rightarrow> val \<Rightarrow> (store \<times> val) option"
  and s_clone_list :: "nat \<Rightarrow> store \<Rightarrow> val list \<Rightarrow> (store \<times> val list) option"
where
  "s_clone n h (VRef a) =
     (case n of
        0 \<Rightarrow> None
      | Suc m \<Rightarrow>
          if a < length h
          then (case h ! a of
                  Obj vs \<Rightarrow>
                    (case s_clone_list m h (map snd vs) of
                       None \<Rightarrow> None
                     | Some (h', ws) \<Rightarrow> Some (h' @ [Obj (zip (map fst vs) ws)], VRef (length h')))
                | Arr xs \<Rightarrow>
                    (case s_clone_list m h xs of
                       None \<Rightarrow> None
                     | Some (h', ws) \<Rightarrow> Some (h' @ [Arr ws], VRef (length h'))))
          else None)"
| "s_clone n h v = Some (h, v)"
| "s_clone_list n h [] = Some (h, [])"
| "s_clone_list n h (v # vs) =
     (case s_clone n h v of
        None \<Rightarrow> None
      | Some (h1, w) \<Rightarrow>
          (case s_clone_list n h1 vs of
             None \<Rightarrow> None
           | Some (h2, ws) \<Rightarrow> Some (h2, w # ws)))"
  by pat_completeness auto

termination s_clone
  by (relation "measures [\<lambda>a. case a of Inl (n, h, v) \<Rightarrow> n | Inr (n, h, vs) \<Rightarrow> n,
                          \<lambda>a. case a of Inl (n, h, v) \<Rightarrow> 0 | Inr (n, h, vs) \<Rightarrow> Suc (length vs)]")
    auto

text \<open>
  \<^verbatim>\<open>processObjectFields\<close> over the store. \<open>s_processObjectFields\<close> clones and runs the loop
  on the clone, at address \<open>r\<close>; the loops write to the cell at \<open>r\<close>. The result is the new store
  with what the call returned or threw. The first argument bounds the depth of the calls;
  \<open>None\<close> means that the walk goes deeper (on a cyclic value it does not return).
\<close>

function s_processObjectFields ::
    "nat \<Rightarrow> runtime \<Rightarrow> store \<Rightarrow> val \<Rightarrow> jsstring \<Rightarrow> (store \<times> (error + val)) option"
  and s_process_keys ::
    "nat \<Rightarrow> runtime \<Rightarrow> store \<Rightarrow> nat \<Rightarrow> jsstring list \<Rightarrow> jsstring \<Rightarrow> (store \<times> error option) option"
  and s_process_indices ::
    "nat \<Rightarrow> runtime \<Rightarrow> store \<Rightarrow> nat \<Rightarrow> nat list \<Rightarrow> jsstring \<Rightarrow> (store \<times> error option) option"
where
  "s_processObjectFields 0 rt h rawConf privateKey = None"
| "s_processObjectFields (Suc n) rt h rawConf privateKey =
     (case s_clone (Suc n) h rawConf of
        None \<Rightarrow> None
      | Some (h1, configJson) \<Rightarrow>
          (case configJson of
             VRef r \<Rightarrow>
               (case (case h1 ! r of
                        Obj vs \<Rightarrow> s_process_keys n rt h1 r (map fst vs) privateKey
                      | Arr xs \<Rightarrow> s_process_indices n rt h1 r [0 ..< length xs] privateKey) of
                  None \<Rightarrow> None
                | Some (h2, Some e) \<Rightarrow> Some (h2, Inl e)
                | Some (h2, None) \<Rightarrow> Some (h2, Inr configJson))
           | _ \<Rightarrow> Some (h1, Inr configJson)))"
| "s_process_keys n rt h r [] privateKey = Some (h, None)"
| "s_process_keys n rt h r (key # keys) privateKey =
     (if prefix (js ''_'') key
      then s_process_keys n rt (h[r := Obj (v_default_alias key (props_of (h ! r)))]) r keys privateKey
      else case map_of (props_of (h ! r)) key of
        None \<Rightarrow> s_process_keys n rt h r keys privateKey
      | Some v \<Rightarrow>
          if v_encrypted v
          then (case decrypt_value rt (v_string_of v) privateKey of
                  Inl e \<Rightarrow> Some (h, Some e)
                | Inr plain \<Rightarrow>
                    s_process_keys n rt
                      (h[r := Obj (set_prop key (VStr plain) (props_of (h ! r)))]) r keys privateKey)
          else if v_typeof_object v
          then (case s_processObjectFields n rt h v privateKey of
                  None \<Rightarrow> None
                | Some (h1, Inl e) \<Rightarrow> Some (h1, Some e)
                | Some (h1, Inr v') \<Rightarrow>
                    s_process_keys n rt
                      (h1[r := Obj (set_prop key v' (props_of (h1 ! r)))]) r keys privateKey)
          else s_process_keys n rt h r keys privateKey)"
| "s_process_indices n rt h r [] privateKey = Some (h, None)"
| "s_process_indices n rt h r (i # is) privateKey =
     (let v = elems_of (h ! r) ! i in
      if v_encrypted v
      then (case decrypt_value rt (v_string_of v) privateKey of
              Inl e \<Rightarrow> Some (h, Some e)
            | Inr plain \<Rightarrow>
                s_process_indices n rt
                  (h[r := Arr ((elems_of (h ! r))[i := VStr plain])]) r is privateKey)
      else if v_typeof_object v
      then (case s_processObjectFields n rt h v privateKey of
              None \<Rightarrow> None
            | Some (h1, Inl e) \<Rightarrow> Some (h1, Some e)
            | Some (h1, Inr v') \<Rightarrow>
                s_process_indices n rt
                  (h1[r := Arr ((elems_of (h1 ! r))[i := v'])]) r is privateKey)
      else s_process_indices n rt h r is privateKey)"
  by pat_completeness auto

termination s_processObjectFields
  by (relation "measures
        [\<lambda>a. case a of Inl (n, rt, h, v, pk) \<Rightarrow> n
                  | Inr (Inl (n, rt, h, r, ks, pk)) \<Rightarrow> n
                  | Inr (Inr (n, rt, h, r, is, pk)) \<Rightarrow> n,
         \<lambda>a. case a of Inl (n, rt, h, v, pk) \<Rightarrow> 0
                  | Inr (Inl (n, rt, h, r, ks, pk)) \<Rightarrow> Suc (length ks)
                  | Inr (Inr (n, rt, h, r, is, pk)) \<Rightarrow> Suc (length is)]")
    auto

subsection \<open>What a call leaves alone\<close>

lemma prefix_update_beyond:
  assumes "prefix h0 h" and "length h0 \<le> r"
  shows "prefix h0 (h[r := c])"
proof -
  from assms(1) obtain zs where "h = h0 @ zs" by (auto simp: prefix_def)
  then have "h[r := c] = h0 @ zs[r - length h0 := c]"
    using assms(2) by (simp add: list_update_append)
  then show ?thesis by simp
qed

lemma loop_frame_step:
  assumes "length h2 \<le> length h' \<and> (\<forall>h0. prefix h0 h2 \<and> length h0 \<le> r \<longrightarrow> prefix h0 h')"
    and "h2 = h1[r := c]" and "prefix h h1"
  shows "length h \<le> length h' \<and> (\<forall>h0. prefix h0 h \<and> length h0 \<le> (r::nat) \<longrightarrow> prefix h0 h')"
proof (intro conjI allI impI)
  have "length h \<le> length h1" using assms(3) by (rule prefix_length_le)
  then show "length h \<le> length h'" using assms(1,2) by simp
next
  fix h0 assume a: "prefix h0 h \<and> length h0 \<le> r"
  then have "prefix h0 h1" using assms(3) by (auto intro: prefix_order.order_trans)
  then have "prefix h0 h2" unfolding assms(2) using a by (simp add: prefix_update_beyond)
  then show "prefix h0 h'" using assms(1) a by blast
qed

lemma s_clone_extends:
  "s_clone n h v = Some (h', v') \<Longrightarrow> prefix h h'"
  "s_clone_list n h vs = Some (h', ws) \<Longrightarrow> prefix h h'"
proof (induction n h v and n h vs arbitrary: h' v' and h' ws rule: s_clone_s_clone_list.induct)
  case (1 n h a)
  then show ?case
    by (auto split: nat.splits if_splits cell.splits option.splits
        intro: prefix_order.order_trans)
next
  case (4 n h v vs)
  from "4.prems" obtain h1 w ws' where a: "s_clone n h v = Some (h1, w)"
    and b: "s_clone_list n h1 vs = Some (h', ws')"
    by (auto split: option.splits)
  from "4.IH"(1) [OF a] "4.IH"(2) [OF a refl b] show ?case
    by (rule prefix_order.order_trans)
qed auto

lemma s_clone_fresh:
  assumes "s_clone n h (VRef a) = Some (h', v')"
  shows "\<exists>r. v' = VRef r \<and> length h \<le> r \<and> r < length h'"
proof -
  from assms obtain m where n: "n = Suc m" and a: "a < length h"
    by (auto split: nat.splits if_splits)
  show ?thesis
  proof (cases "h ! a")
    case (Obj vs)
    then obtain h1 ws where 1: "s_clone_list m h (map snd vs) = Some (h1, ws)"
      and 2: "h' = h1 @ [Obj (zip (map fst vs) ws)]" "v' = VRef (length h1)"
      using assms n a by (auto split: option.splits)
    from s_clone_extends(2) [OF 1] have "length h \<le> length h1" by (rule prefix_length_le)
    then show ?thesis using 2 by simp
  next
    case (Arr xs)
    then obtain h1 ws where 1: "s_clone_list m h xs = Some (h1, ws)"
      and 2: "h' = h1 @ [Arr ws]" "v' = VRef (length h1)"
      using assms n a by (auto split: option.splits)
    from s_clone_extends(2) [OF 1] have "length h \<le> length h1" by (rule prefix_length_le)
    then show ?thesis using 2 by simp
  qed
qed

lemma s_clone_scalar:
  assumes "s_clone n h v = Some (h', v')" and "\<forall>a. v \<noteq> VRef a"
  shows "h' = h \<and> v' = v"
  using assms by (cases v) auto

lemma s_walk_frame:
  "s_processObjectFields n rt h v pk = Some (h', res) \<Longrightarrow>
     prefix h h' \<and> (\<forall>a r. v = VRef a \<and> res = Inr (VRef r) \<longrightarrow> length h \<le> r \<and> r < length h')"
  "s_process_keys n rt h r ks pk = Some (h', err) \<Longrightarrow>
     length h \<le> length h' \<and> (\<forall>h0. prefix h0 h \<and> length h0 \<le> r \<longrightarrow> prefix h0 h')"
  "s_process_indices n rt h r is pk = Some (h', err) \<Longrightarrow>
     length h \<le> length h' \<and> (\<forall>h0. prefix h0 h \<and> length h0 \<le> r \<longrightarrow> prefix h0 h')"
proof (induction n rt h v pk and n rt h r ks pk and n rt h r "is" pk
    arbitrary: h' res and h' err and h' err
    rule: s_processObjectFields_s_process_keys_s_process_indices.induct)
  case (1 rt h rawConf privateKey)
  then show ?case by simp
next
  case (2 n rt h rawConf privateKey)
  from "2.prems" obtain h1 configJson where c: "s_clone (Suc n) h rawConf = Some (h1, configJson)"
    by (auto split: option.splits)
  note e = s_clone_extends(1) [OF c]
  show ?case
  proof (cases configJson)
    case (VRef r)
    have fr: "\<And>a. rawConf = VRef a \<Longrightarrow> length h \<le> r \<and> r < length h1"
      using s_clone_fresh c VRef by blast
    have isref: "\<exists>a. rawConf = VRef a"
      using s_clone_scalar [OF c] VRef by (cases rawConf) auto
    show ?thesis
    proof (cases "h1 ! r")
      case (Obj vs)
      then obtain err where w: "s_process_keys n rt h1 r (map fst vs) privateKey = Some (h', err)"
        and r: "res = (case err of Some e \<Rightarrow> Inl e | None \<Rightarrow> Inr configJson)"
        using "2.prems" c VRef by (auto split: option.splits)
      from "2.IH"(1) [OF c refl VRef Obj w]
      have "length h1 \<le> length h'" "prefix h h'" using e fr isref by auto
      then show ?thesis using r VRef fr by (auto split: option.splits)
    next
      case (Arr xs)
      then obtain err where w: "s_process_indices n rt h1 r [0 ..< length xs] privateKey = Some (h', err)"
        and r: "res = (case err of Some e \<Rightarrow> Inl e | None \<Rightarrow> Inr configJson)"
        using "2.prems" c VRef by (auto split: option.splits)
      from "2.IH"(2) [OF c refl VRef Arr w]
      have "length h1 \<le> length h'" "prefix h h'" using e fr isref by auto
      then show ?thesis using r VRef fr by (auto split: option.splits)
    qed
  qed (use "2.prems" c e in \<open>auto split: option.splits\<close>)
next
  case (3 n rt h r privateKey)
  then show ?case by simp
next
  case (4 n rt h r key keys privateKey)
  note run = "4.prems"
  show ?case
  proof (cases "prefix (js ''_'') key")
    case True
    let ?h2 = "h[r := Obj (v_default_alias key (props_of (h ! r)))]"
    from run True have "s_process_keys n rt ?h2 r keys privateKey = Some (h', err)" by simp
    from "4.IH"(1) [OF True this] show ?thesis
      by (rule loop_frame_step) (rule refl, simp add: prefix_def)
  next
    case False
    show ?thesis
    proof (cases "map_of (props_of (h ! r)) key")
      case None
      then have "s_process_keys n rt h r keys privateKey = Some (h', err)"
        using run False by simp
      from "4.IH"(2) [OF False None this] show ?thesis .
    next
      case (Some v)
      consider (enc) "v_encrypted v"
        | (obj) "\<not> v_encrypted v" "v_typeof_object v"
        | (other) "\<not> v_encrypted v" "\<not> v_typeof_object v"
        by blast
      then show ?thesis
      proof cases
        case enc
        show ?thesis
        proof (cases "decrypt_value rt (v_string_of v) privateKey")
          case (Inl e)
          then have "h' = h" using run False Some enc by simp
          then show ?thesis by simp
        next
          case (Inr plain)
          let ?h2 = "h[r := Obj (set_prop key (VStr plain) (props_of (h ! r)))]"
          have "s_process_keys n rt ?h2 r keys privateKey = Some (h', err)"
            using run False Some enc Inr by simp
          from "4.IH"(3) [OF False Some enc Inr this] show ?thesis
            by (rule loop_frame_step) (rule refl, simp add: prefix_def)
        qed
      next
        case obj
        from run False Some obj obtain h1 res1 where
          c: "s_processObjectFields n rt h v privateKey = Some (h1, res1)"
          by (auto split: option.splits)
        from "4.IH"(4) [OF False Some obj c] have p1: "prefix h h1" by simp
        show ?thesis
        proof (cases res1)
          case (Inl e)
          then have "h' = h1" using run False Some obj c by simp
          then show ?thesis using p1 by (auto intro: prefix_order.order_trans prefix_length_le)
        next
          case (Inr v')
          let ?h2 = "h1[r := Obj (set_prop key v' (props_of (h1 ! r)))]"
          have "s_process_keys n rt ?h2 r keys privateKey = Some (h', err)"
            using run False Some obj c Inr by simp
          from "4.IH"(5) [OF False Some obj c refl Inr this] show ?thesis
            by (rule loop_frame_step) (rule refl, rule p1)
        qed
      next
        case other
        then have "s_process_keys n rt h r keys privateKey = Some (h', err)"
          using run False Some by simp
        from "4.IH"(6) [OF False Some other this] show ?thesis .
      qed
    qed
  qed
next
  case (5 n rt h r privateKey)
  then show ?case by simp
next
  case (6 n rt h r i "is" privateKey)
  note run = "6.prems"
  define v where "v = elems_of (h ! r) ! i"
  consider (enc) "v_encrypted v"
    | (obj) "\<not> v_encrypted v" "v_typeof_object v"
    | (other) "\<not> v_encrypted v" "\<not> v_typeof_object v"
    by blast
  then show ?case
  proof cases
    case enc
    show ?thesis
    proof (cases "decrypt_value rt (v_string_of v) privateKey")
      case (Inl e)
      then have "h' = h" using run enc by (simp add: v_def Let_def)
      then show ?thesis by simp
    next
      case (Inr plain)
      let ?h2 = "h[r := Arr ((elems_of (h ! r))[i := VStr plain])]"
      have "s_process_indices n rt ?h2 r is privateKey = Some (h', err)"
        using run enc Inr by (simp add: v_def Let_def)
      from "6.IH"(1) [OF v_def enc Inr this] show ?thesis
        by (rule loop_frame_step) (rule refl, simp add: prefix_def)
    qed
  next
    case obj
    from run obj obtain h1 res1 where
      c: "s_processObjectFields n rt h v privateKey = Some (h1, res1)"
      by (auto simp: v_def Let_def split: option.splits)
    from "6.IH"(2) [OF v_def obj c] have p1: "prefix h h1" by simp
    show ?thesis
    proof (cases res1)
      case (Inl e)
      then have "h' = h1" using run obj c by (simp add: v_def Let_def)
      then show ?thesis using p1 by (auto intro: prefix_order.order_trans prefix_length_le)
    next
      case (Inr v')
      let ?h2 = "h1[r := Arr ((elems_of (h1 ! r))[i := v'])]"
      have "s_process_indices n rt ?h2 r is privateKey = Some (h', err)"
        using run obj c Inr by (simp add: v_def Let_def)
      from "6.IH"(3) [OF v_def obj c refl Inr this] show ?thesis
        by (rule loop_frame_step) (rule refl, rule p1)
    qed
  next
    case other
    then have "s_process_indices n rt h r is privateKey = Some (h', err)"
      using run by (simp add: v_def Let_def)
    from "6.IH"(4) [OF v_def other this] show ?thesis .
  qed
qed

subsection \<open>Values in the store and documents\<close>

text \<open>
  \<open>rep b h v j\<close>: in the store \<open>h\<close> the value \<open>v\<close> is the document \<open>j\<close>, and every object and array
  of it lies at an address from \<open>b\<close> on. \<open>represents\<close> is \<open>rep 0\<close>.
\<close>

fun rep :: "nat \<Rightarrow> store \<Rightarrow> val \<Rightarrow> json \<Rightarrow> bool" where
  "rep b h v JNull = (v = VNull)"
| "rep b h v (JBool x) = (v = VBool x)"
| "rep b h v (JNum x) = (v = VNum x)"
| "rep b h v (JStr s) = (v = VStr s)"
| "rep b h v (JArr xs) =
     (case v of
        VRef a \<Rightarrow> b \<le> a \<and> a < length h \<and>
          (case h ! a of
             Arr ws \<Rightarrow> list_all2 (\<lambda>w x. rep b h w x) ws xs
           | Obj vs \<Rightarrow> False)
      | _ \<Rightarrow> False)"
| "rep b h v (JObj ps) =
     (case v of
        VRef a \<Rightarrow> b \<le> a \<and> a < length h \<and>
          (case h ! a of
             Obj vs \<Rightarrow> list_all2 (\<lambda>p q. fst p = fst q \<and> rep b h (snd p) (snd q)) vs ps
           | Arr ws \<Rightarrow> False)
      | _ \<Rightarrow> False)"

definition represents :: "store \<Rightarrow> val \<Rightarrow> json \<Rightarrow> bool" where
  "represents h v j = rep 0 h v j"


definition rel_props :: "nat \<Rightarrow> store \<Rightarrow> (jsstring \<times> val) list \<Rightarrow> props \<Rightarrow> bool" where
  "rel_props b h vs ps = list_all2 (\<lambda>p q. fst p = fst q \<and> rep b h (snd p) (snd q)) vs ps"

lemma rep_JObj:
  "rep b h v (JObj ps) \<longleftrightarrow>
     (\<exists>a vs. v = VRef a \<and> b \<le> a \<and> a < length h \<and> h ! a = Obj vs \<and> rel_props b h vs ps)"
  by (auto simp: rel_props_def split: val.splits cell.splits)

lemma rep_JArr:
  "rep b h v (JArr xs) \<longleftrightarrow>
     (\<exists>a ws. v = VRef a \<and> b \<le> a \<and> a < length h \<and> h ! a = Arr ws \<and> list_all2 (rep b h) ws xs)"
  by (auto split: val.splits cell.splits)

declare rep.simps(5,6) [simp del]

lemma rep_agree:
  "rep b h v j \<Longrightarrow> length h \<le> length g \<Longrightarrow>
   (\<And>a. b \<le> a \<Longrightarrow> a < length h \<Longrightarrow> g ! a = h ! a) \<Longrightarrow> rep b g v j"
proof (induction b h v j rule: rep.induct)
  case (5 b h v xs)
  from "5.prems"(1) obtain a ws where v: "v = VRef a" "b \<le> a" "a < length h" "h ! a = Arr ws"
    and l: "list_all2 (rep b h) ws xs"
    unfolding rep_JArr by blast
  have "list_all2 (rep b g) ws xs"
    using l
  proof (rule list.rel_mono_strong)
    fix w x assume "w \<in> set ws" "x \<in> set xs" "rep b h w x"
    then show "rep b g w x" using "5.IH" [OF v(1) v(4)] "5.prems"(2,3) by blast
  qed
  moreover have "g ! a = Arr ws" using "5.prems"(3) v by simp
  ultimately show ?case unfolding rep_JArr using v "5.prems"(2) by auto
next
  case (6 b h v ps)
  from "6.prems"(1) obtain a vs where v: "v = VRef a" "b \<le> a" "a < length h" "h ! a = Obj vs"
    and l: "rel_props b h vs ps"
    unfolding rep_JObj by blast
  have "rel_props b g vs ps"
    using l unfolding rel_props_def
  proof (rule list.rel_mono_strong)
    fix p q assume "p \<in> set vs" "q \<in> set ps" "fst p = fst q \<and> rep b h (snd p) (snd q)"
    then show "fst p = fst q \<and> rep b g (snd p) (snd q)"
      using "6.IH" [OF v(1) v(4)] "6.prems"(2,3) by blast
  qed
  moreover have "g ! a = Obj vs" using "6.prems"(3) v by simp
  ultimately show ?case unfolding rep_JObj using v "6.prems"(2) by auto
qed auto

lemma rep_weaken: "rep b h v j \<Longrightarrow> b' \<le> b \<Longrightarrow> rep b' h v j"
proof (induction b h v j rule: rep.induct)
  case (5 b h v xs)
  from "5.prems"(1) obtain a ws where v: "v = VRef a" "b \<le> a" "a < length h" "h ! a = Arr ws"
    and l: "list_all2 (rep b h) ws xs"
    unfolding rep_JArr by blast
  have "list_all2 (rep b' h) ws xs"
    using l
  proof (rule list.rel_mono_strong)
    fix w x assume "w \<in> set ws" "x \<in> set xs" "rep b h w x"
    then show "rep b' h w x" using "5.IH" [OF v(1) v(4)] "5.prems"(2) by blast
  qed
  then show ?case unfolding rep_JArr using v "5.prems"(2) by auto
next
  case (6 b h v ps)
  from "6.prems"(1) obtain a vs where v: "v = VRef a" "b \<le> a" "a < length h" "h ! a = Obj vs"
    and l: "rel_props b h vs ps"
    unfolding rep_JObj by blast
  have "rel_props b' h vs ps"
    using l unfolding rel_props_def
  proof (rule list.rel_mono_strong)
    fix p q assume "p \<in> set vs" "q \<in> set ps" "fst p = fst q \<and> rep b h (snd p) (snd q)"
    then show "fst p = fst q \<and> rep b' h (snd p) (snd q)"
      using "6.IH" [OF v(1) v(4)] "6.prems"(2) by blast
  qed
  then show ?case unfolding rep_JObj using v "6.prems"(2) by auto
qed auto

lemma rep_prefix: "rep b h v j \<Longrightarrow> prefix h g \<Longrightarrow> rep b g v j"
proof (rule rep_agree)
  assume "prefix h g"
  then show "length h \<le> length g" by (rule prefix_length_le)
next
  fix a assume "prefix h g" "a < length h"
  then show "g ! a = h ! a" by (auto simp: prefix_def nth_append)
qed

lemma rep_update_below: "rep b h v j \<Longrightarrow> r < b \<Longrightarrow> rep b (h[r := c]) v j"
  by (rule rep_agree) auto

lemma rep_scalars:
  assumes "rep b h v j"
  shows "vtruthy v = truthy j" "v_encrypted v = encrypted j" "v_string_of v = string_of j"
    "v_typeof_object v = typeof_object j"
  using assms
  by (cases j; auto simp: rep_JObj rep_JArr v_encrypted_def encrypted_def is_string_def
      string_of_def v_string_of_def v_typeof_object_def typeof_object_def)+

lemma rel_props_keys: "rel_props b h vs ps \<Longrightarrow> map fst vs = map fst ps"
  unfolding rel_props_def by (induction vs ps rule: list_all2_induct) auto

lemma rel_props_lookup:
  assumes "rel_props b h vs ps"
  shows "(map_of vs k = None \<longleftrightarrow> map_of ps k = None) \<and>
         (\<forall>w x. map_of vs k = Some w \<and> map_of ps k = Some x \<longrightarrow> rep b h w x)"
  using assms unfolding rel_props_def
  by (induction vs ps rule: list_all2_induct) auto

lemma rel_props_update:
  assumes "rel_props b h vs ps" and "rep b h w x"
  shows "rel_props b h (AList.update k w vs) (AList.update k x ps)"
  using assms unfolding rel_props_def
  by (induction vs ps rule: list_all2_induct) auto

lemma rel_props_insert_index:
  assumes "rel_props b h vs ps" and "rep b h w x"
  shows "rel_props b h (insert_index i k w vs) (insert_index i k x ps)"
  using assms unfolding rel_props_def
  by (induction vs ps rule: list_all2_induct) (auto split: option.splits)

lemma rel_props_set_prop:
  assumes "rel_props b h vs ps" and "rep b h w x"
  shows "rel_props b h (set_prop k w vs) (set_prop k x ps)"
proof -
  have "rel_props b h (vs @ [(k, w)]) (ps @ [(k, x)])"
    using assms by (simp add: rel_props_def list_all2_appendI)
  then show ?thesis
    using rel_props_lookup [OF assms(1), of k] rel_props_update [OF assms]
      rel_props_insert_index [OF assms]
    by (auto simp: set_prop_def split: option.splits)
qed

lemma rel_props_truthy_lookup:
  assumes "rel_props b h vs ps"
  shows "v_truthy_lookup vs k = truthy_lookup ps k"
  using rel_props_lookup [OF assms, of k] rep_scalars(1)
  by (auto simp: v_truthy_lookup_def truthy_lookup_def split: option.splits)

lemma rel_props_default_alias:
  assumes "rel_props b h vs ps"
  shows "rel_props b h (v_default_alias key vs) (default_alias key ps)"
proof -
  note l = rel_props_lookup [OF assms, of key]
  show ?thesis
    using assms l rel_props_truthy_lookup [OF assms, of "drop 1 key"]
      rel_props_set_prop [OF assms]
    by (auto simp: v_default_alias_def default_alias_def Let_def split: option.splits)
qed

subsection \<open>The clone\<close>

lemma rel_props_values:
  "rel_props b h vs ps \<Longrightarrow> list_all2 (rep b h) (map snd vs) (map snd ps)"
  unfolding rel_props_def by (induction vs ps rule: list_all2_induct) auto

lemma rel_props_zip:
  "list_all2 (rep b h) ws (map snd ps) \<Longrightarrow> rel_props b h (zip (map fst ps) ws) ps"
  unfolding rel_props_def
proof (induction ps arbitrary: ws)
  case Nil
  then show ?case by simp
next
  case (Cons p ps)
  then obtain w ws' where "ws = w # ws'" by (cases ws) auto
  then show ?case using Cons by auto
qed

lemma elems_depth_values: "elems_depth (map snd ps) = props_depth ps"
  by (induction ps) auto

lemma list_all2_rep_prefix:
  "list_all2 (rep b h) ws xs \<Longrightarrow> prefix h g \<Longrightarrow> list_all2 (rep b g) ws xs"
  by (erule list_all2_mono) (rule rep_prefix)

lemma list_all2_rep_weaken:
  "list_all2 (rep b h) ws xs \<Longrightarrow> b' \<le> b \<Longrightarrow> list_all2 (rep b' h) ws xs"
  by (erule list_all2_mono) (rule rep_weaken)

lemma s_clone_rep:
  "rep b h v j \<Longrightarrow> s_clone n h v = Some (h', v') \<Longrightarrow> rep (length h) h' v' j"
  "list_all2 (rep b h) vs jl \<Longrightarrow> s_clone_list n h vs = Some (h', ws) \<Longrightarrow>
     list_all2 (rep (length h) h') ws jl"
proof (induction n h v and n h vs arbitrary: b j h' v' and b jl h' ws
    rule: s_clone_s_clone_list.induct)
  case (1 n h a)
  from "1.prems"(2) obtain m where n: "n = Suc m" and a: "a < length h"
    by (auto split: nat.splits if_splits)
  show ?case
  proof (cases "h ! a")
    case (Obj vs)
    then obtain ps where j: "j = JObj ps" and r: "rel_props b h vs ps"
      using "1.prems"(1) by (cases j) (auto simp: rep_JObj rep_JArr)
    from "1.prems"(2) n a Obj obtain h1 ws where
      c: "s_clone_list m h (map snd vs) = Some (h1, ws)"
      and h': "h' = h1 @ [Obj (zip (map fst vs) ws)]" and v': "v' = VRef (length h1)"
      by (auto split: option.splits)
    have "list_all2 (rep (length h) h1) ws (map snd ps)"
      using "1.IH"(1) [OF n a Obj rel_props_values [OF r] c] .
    then have "list_all2 (rep (length h) h') ws (map snd ps)"
      unfolding h' by (rule list_all2_rep_prefix) simp
    then have "rel_props (length h) h' (zip (map fst vs) ws) ps"
      unfolding rel_props_keys [OF r] by (rule rel_props_zip)
    moreover have "length h \<le> length h1"
      using s_clone_extends(2) [OF c] by (rule prefix_length_le)
    ultimately show ?thesis unfolding j rep_JObj v' h' by simp
  next
    case (Arr xs)
    then obtain ys where j: "j = JArr ys" and r: "list_all2 (rep b h) xs ys"
      using "1.prems"(1) by (cases j) (auto simp: rep_JObj rep_JArr)
    from "1.prems"(2) n a Arr obtain h1 ws where
      c: "s_clone_list m h xs = Some (h1, ws)"
      and h': "h' = h1 @ [Arr ws]" and v': "v' = VRef (length h1)"
      by (auto split: option.splits)
    have "list_all2 (rep (length h) h1) ws ys"
      using "1.IH"(2) [OF n a Arr r c] .
    then have "list_all2 (rep (length h) h') ws ys"
      unfolding h' by (rule list_all2_rep_prefix) simp
    moreover have "length h \<le> length h1"
      using s_clone_extends(2) [OF c] by (rule prefix_length_le)
    ultimately show ?thesis unfolding j rep_JArr v' h' by simp
  qed
next
  case (4 n h v vs)
  from "4.prems"(1) obtain j jt where jl: "jl = j # jt" and r1: "rep b h v j"
    and r2: "list_all2 (rep b h) vs jt"
    by (cases jl) auto
  from "4.prems"(2) obtain h1 w ws' where a: "s_clone n h v = Some (h1, w)"
    and c: "s_clone_list n h1 vs = Some (h', ws')" and ws: "ws = w # ws'"
    by (auto split: option.splits)
  note p1 = s_clone_extends(1) [OF a]
  note p2 = s_clone_extends(2) [OF c]
  have "rep (length h) h1 w j" using "4.IH"(1) [OF r1 a] .
  then have 1: "rep (length h) h' w j" using p2 by (rule rep_prefix)
  have "list_all2 (rep b h1) vs jt" using r2 p1 by (rule list_all2_rep_prefix)
  then have "list_all2 (rep (length h1) h') ws' jt" using "4.IH"(2) [OF a refl _ c] by blast
  then have 2: "list_all2 (rep (length h) h') ws' jt"
    using prefix_length_le [OF p1] by (rule list_all2_rep_weaken)
  show ?case using 1 2 jl ws by simp
qed (auto simp: rep_JObj rep_JArr elim: rep.elims)

lemma s_clone_total:
  "rep b h v j \<Longrightarrow> depth j \<le> n \<Longrightarrow> s_clone n h v \<noteq> None"
  "list_all2 (rep b h) vs jl \<Longrightarrow> elems_depth jl \<le> n \<Longrightarrow> s_clone_list n h vs \<noteq> None"
proof (induction n h v and n h vs arbitrary: b j and b jl
    rule: s_clone_s_clone_list.induct)
  case (1 n h a)
  show ?case
  proof (cases j)
    case (JObj ps)
    then obtain vs where o: "a < length h" "h ! a = Obj vs" "rel_props b h vs ps"
      using "1.prems"(1) by (auto simp: rep_JObj)
    from "1.prems"(2) JObj obtain m where n: "n = Suc m" and d: "props_depth ps \<le> m"
      by (cases n) auto
    have "s_clone_list m h (map snd vs) \<noteq> None"
      using "1.IH"(1) [OF n o(1,2) rel_props_values [OF o(3)]] d
      by (simp add: elems_depth_values)
    then show ?thesis using n o by (auto split: option.splits)
  next
    case (JArr xs)
    then obtain ws where o: "a < length h" "h ! a = Arr ws" "list_all2 (rep b h) ws xs"
      using "1.prems"(1) by (auto simp: rep_JArr)
    from "1.prems"(2) JArr obtain m where n: "n = Suc m" and d: "elems_depth xs \<le> m"
      by (cases n) auto
    have "s_clone_list m h ws \<noteq> None"
      using "1.IH"(2) [OF n o(1,2) o(3)] d by simp
    then show ?thesis using n o by (auto split: option.splits)
  qed (use "1.prems"(1) in auto)
next
  case (4 n h v vs)
  from "4.prems"(1) obtain j jt where jl: "jl = j # jt" and r1: "rep b h v j"
    and r2: "list_all2 (rep b h) vs jt"
    by (cases jl) auto
  have d: "depth j \<le> n" "elems_depth jt \<le> n" using "4.prems"(2) jl by auto
  from "4.IH"(1) [OF r1 d(1)] obtain h1 w where a: "s_clone n h v = Some (h1, w)" by auto
  have "list_all2 (rep b h1) vs jt"
    using r2 s_clone_extends(1) [OF a] by (rule list_all2_rep_prefix)
  from "4.IH"(2) [OF a refl this d(2)] show ?case using a by (auto split: option.splits)
qed auto

subsection \<open>The loops and the clone they write to\<close>

text \<open>
  While a loop runs on the clone at address \<open>r\<close>, the cell at \<open>r\<close> holds the properties that
  the loop of the value-level walker holds, and what represents them does not depend on the
  cell at \<open>r\<close> itself: the children of the clone were allocated before it, and what a
  recursive call returns is allocated after it.
\<close>

definition keys_inv :: "nat \<Rightarrow> store \<Rightarrow> nat \<Rightarrow> props \<Rightarrow> bool" where
  "keys_inv b h r cur =
     (r < length h \<and> b \<le> r \<and> (\<forall>c. rel_props b (h[r := c]) (props_of (h ! r)) cur) \<and>
      (\<exists>vs. h ! r = Obj vs))"

definition elems_inv :: "nat \<Rightarrow> store \<Rightarrow> nat \<Rightarrow> json list \<Rightarrow> bool" where
  "elems_inv b h r cur =
     (r < length h \<and> b \<le> r \<and> (\<forall>c. list_all2 (rep b (h[r := c])) (elems_of (h ! r)) cur) \<and>
      (\<exists>ws. h ! r = Arr ws))"

lemma rel_props_prefix: "rel_props b h vs ps \<Longrightarrow> prefix h g \<Longrightarrow> rel_props b g vs ps"
  unfolding rel_props_def by (erule list_all2_mono) (auto intro: rep_prefix)

lemma rel_props_weaken: "rel_props b h vs ps \<Longrightarrow> b' \<le> b \<Longrightarrow> rel_props b' h vs ps"
  unfolding rel_props_def by (erule list_all2_mono) (auto intro: rep_weaken)

lemma prefix_update: "prefix h g \<Longrightarrow> r < length h \<Longrightarrow> prefix (h[r := c]) (g[r := c])"
  by (auto simp: prefix_def list_update_append)

lemma prefix_nth: "prefix h g \<Longrightarrow> r < length h \<Longrightarrow> g ! r = h ! r"
  by (auto simp: prefix_def nth_append)

lemma keys_inv_here: "keys_inv b h r cur \<Longrightarrow> rel_props b h (props_of (h ! r)) cur"
proof -
  assume "keys_inv b h r cur"
  then have "rel_props b (h[r := h ! r]) (props_of (h ! r)) cur"
    unfolding keys_inv_def by blast
  then show ?thesis by simp
qed

lemma elems_inv_here: "elems_inv b h r cur \<Longrightarrow> list_all2 (rep b h) (elems_of (h ! r)) cur"
proof -
  assume "elems_inv b h r cur"
  then have "list_all2 (rep b (h[r := h ! r])) (elems_of (h ! r)) cur"
    unfolding elems_inv_def by blast
  then show ?thesis by simp
qed

lemma keys_inv_alias:
  assumes "keys_inv b h r cur"
  shows "keys_inv b (h[r := Obj (v_default_alias key (props_of (h ! r)))]) r (default_alias key cur)"
  using assms unfolding keys_inv_def
  by (auto simp: props_of_def intro: rel_props_default_alias)

lemma keys_inv_set:
  assumes i: "keys_inv b h r cur" and p: "prefix h g" and w: "rep (length h) g w x"
  shows "keys_inv b (g[r := Obj (set_prop key w (props_of (g ! r)))]) r (set_prop key x cur)"
proof -
  from i have r: "r < length h" "b \<le> r" and rl: "\<And>c. rel_props b (h[r := c]) (props_of (h ! r)) cur"
    unfolding keys_inv_def by auto
  have g: "g ! r = h ! r" "r < length g"
    using p r(1) prefix_nth prefix_length_le [OF p] by auto
  have "rel_props b (g[r := c]) (set_prop key w (props_of (h ! r))) (set_prop key x cur)" for c
  proof (rule rel_props_set_prop)
    show "rel_props b (g[r := c]) (props_of (h ! r)) cur"
      using rl [of c] prefix_update [OF p r(1)] by (rule rel_props_prefix)
    have "rep (length h) (g[r := c]) w x" using w r(1) by (rule rep_update_below)
    then show "rep b (g[r := c]) w x" using r by (auto intro: rep_weaken)
  qed
  then show ?thesis unfolding keys_inv_def using r g by (simp add: props_of_def)
qed

lemma elems_inv_set:
  assumes i: "elems_inv b h r cur" and p: "prefix h g" and w: "rep (length h) g w x"
  shows "elems_inv b (g[r := Arr ((elems_of (g ! r))[i := w])]) r (cur[i := x])"
proof -
  from i have r: "r < length h" "b \<le> r"
    and rl: "\<And>c. list_all2 (rep b (h[r := c])) (elems_of (h ! r)) cur"
    unfolding elems_inv_def by auto
  have g: "g ! r = h ! r" "r < length g"
    using p r(1) prefix_nth prefix_length_le [OF p] by auto
  have "list_all2 (rep b (g[r := c])) ((elems_of (h ! r))[i := w]) (cur[i := x])" for c
  proof (rule list_all2_update_cong)
    show "list_all2 (rep b (g[r := c])) (elems_of (h ! r)) cur"
      using rl [of c] prefix_update [OF p r(1)] by (rule list_all2_rep_prefix)
    have "rep (length h) (g[r := c]) w x" using w r(1) by (rule rep_update_below)
    then show "rep b (g[r := c]) w x" using r by (auto intro: rep_weaken)
  qed
  then show ?thesis unfolding elems_inv_def using r g by (simp add: elems_of_def)
qed

lemma s_clone_keys_inv:
  assumes "rep b h v (JObj ps)" and "s_clone n h v = Some (h', v')"
  shows "\<exists>r. v' = VRef r \<and> keys_inv (length h) h' r ps \<and> map fst (props_of (h' ! r)) = map fst ps"
proof -
  from assms(1) obtain a vs where v: "v = VRef a" "a < length h" "h ! a = Obj vs"
    and r: "rel_props b h vs ps"
    unfolding rep_JObj by blast
  from assms(2) v obtain m h1 ws where n: "n = Suc m"
    and c: "s_clone_list m h (map snd vs) = Some (h1, ws)"
    and h': "h' = h1 @ [Obj (zip (map fst vs) ws)]" and v': "v' = VRef (length h1)"
    by (auto split: nat.splits option.splits)
  have l: "list_all2 (rep (length h) h1) ws (map snd ps)"
    using s_clone_rep(2) [OF rel_props_values [OF r] c] .
  have le: "length h \<le> length h1"
    using s_clone_extends(2) [OF c] by (rule prefix_length_le)
  have "rel_props (length h) (h1 @ [c]) (zip (map fst vs) ws) ps" for c
    unfolding rel_props_keys [OF r]
    by (rule rel_props_zip) (rule list_all2_rep_prefix [OF l], simp)
  moreover have "map fst (zip (map fst vs) ws) = map fst ps"
    using list_all2_lengthD [OF l] rel_props_keys [OF r] by simp
  ultimately show ?thesis
    unfolding keys_inv_def h' v' using le by (simp add: props_of_def)
qed

lemma s_clone_elems_inv:
  assumes "rep b h v (JArr xs)" and "s_clone n h v = Some (h', v')"
  shows "\<exists>r. v' = VRef r \<and> elems_inv (length h) h' r xs"
proof -
  from assms(1) obtain a ws where v: "v = VRef a" "a < length h" "h ! a = Arr ws"
    and r: "list_all2 (rep b h) ws xs"
    unfolding rep_JArr by blast
  from assms(2) v obtain m h1 ws' where n: "n = Suc m"
    and c: "s_clone_list m h ws = Some (h1, ws')"
    and h': "h' = h1 @ [Arr ws']" and v': "v' = VRef (length h1)"
    by (auto split: nat.splits option.splits)
  have l: "list_all2 (rep (length h) h1) ws' xs"
    using s_clone_rep(2) [OF r c] .
  have le: "length h \<le> length h1"
    using s_clone_extends(2) [OF c] by (rule prefix_length_le)
  have "list_all2 (rep (length h) (h1 @ [c])) ws' xs" for c
    by (rule list_all2_rep_prefix [OF l]) simp
  then show ?thesis
    unfolding elems_inv_def h' v' using le by (simp add: elems_of_def)
qed

subsection \<open>The walker over the store computes what the walker over values computes\<close>

definition walk_sim :: "nat \<Rightarrow> (store \<times> (error + val)) option \<Rightarrow> error + json \<Rightarrow> bool" where
  "walk_sim b out res =
     (case res of
        Inl e \<Rightarrow> \<exists>h'. out = Some (h', Inl e)
      | Inr j' \<Rightarrow> \<exists>h' v'. out = Some (h', Inr v') \<and> rep b h' v' j')"

definition keys_sim :: "nat \<Rightarrow> nat \<Rightarrow> (store \<times> error option) option \<Rightarrow> error + props \<Rightarrow> bool" where
  "keys_sim b r out res =
     (case res of
        Inl e \<Rightarrow> \<exists>h'. out = Some (h', Some e)
      | Inr cur' \<Rightarrow> \<exists>h'. out = Some (h', None) \<and> keys_inv b h' r cur')"

definition elems_sim ::
    "nat \<Rightarrow> nat \<Rightarrow> json list \<Rightarrow> (store \<times> error option) option \<Rightarrow> error + json list \<Rightarrow> bool" where
  "elems_sim b r pre out res =
     (case res of
        Inl e \<Rightarrow> \<exists>h'. out = Some (h', Some e)
      | Inr rest' \<Rightarrow> \<exists>h'. out = Some (h', None) \<and> elems_inv b h' r (pre @ rest'))"

lemma walk_sim_keys:
  assumes "keys_sim b r out res"
  shows "walk_sim b
           (case out of None \<Rightarrow> None
            | Some (h2, Some e) \<Rightarrow> Some (h2, Inl e)
            | Some (h2, None) \<Rightarrow> Some (h2, Inr (VRef r)))
           (case res of Inl e \<Rightarrow> Inl e | Inr c \<Rightarrow> Inr (JObj c))"
proof (cases res)
  case (Inl e)
  then show ?thesis using assms by (auto simp: keys_sim_def walk_sim_def)
next
  case (Inr cur')
  then obtain h' where o: "out = Some (h', None)" and i: "keys_inv b h' r cur'"
    using assms by (auto simp: keys_sim_def)
  from i obtain vs where "h' ! r = Obj vs" "r < length h'" "b \<le> r"
    unfolding keys_inv_def by blast
  then have "rep b h' (VRef r) (JObj cur')"
    unfolding rep_JObj using keys_inv_here [OF i] by (simp add: props_of_def)
  then show ?thesis using Inr o by (simp add: walk_sim_def)
qed

lemma walk_sim_elems:
  assumes "elems_sim b r [] out res"
  shows "walk_sim b
           (case out of None \<Rightarrow> None
            | Some (h2, Some e) \<Rightarrow> Some (h2, Inl e)
            | Some (h2, None) \<Rightarrow> Some (h2, Inr (VRef r)))
           (case res of Inl e \<Rightarrow> Inl e | Inr c \<Rightarrow> Inr (JArr c))"
proof (cases res)
  case (Inl e)
  then show ?thesis using assms by (auto simp: elems_sim_def walk_sim_def)
next
  case (Inr cur')
  then obtain h' where o: "out = Some (h', None)" and i: "elems_inv b h' r cur'"
    using assms by (auto simp: elems_sim_def)
  from i obtain ws where "h' ! r = Arr ws" "r < length h'" "b \<le> r"
    unfolding elems_inv_def by blast
  then have "rep b h' (VRef r) (JArr cur')"
    unfolding rep_JArr using elems_inv_here [OF i] by (simp add: elems_of_def)
  then show ?thesis using Inr o by (simp add: walk_sim_def)
qed

lemma elems_sim_Cons:
  "elems_sim b r (pre @ [x]) out res \<Longrightarrow>
   elems_sim b r pre out (case res of Inl e \<Rightarrow> Inl e | Inr xs' \<Rightarrow> Inr (x # xs'))"
  by (auto simp: elems_sim_def split: sum.splits)

lemma walker_simulation:
  "rep b h v j \<Longrightarrow> depth j < n \<Longrightarrow>
     walk_sim (length h) (s_processObjectFields n rt h v pk) (processObjectFields rt j pk)"
  "keys_inv b h r cur \<Longrightarrow> props_depth cur < n \<Longrightarrow>
     keys_sim b r (s_process_keys n rt h r ks pk) (process_keys rt ks cur pk)"
  "elems_inv b h r (pre @ rest) \<Longrightarrow> elems_depth rest < n \<Longrightarrow>
     elems_sim b r pre
       (s_process_indices n rt h r [length pre ..< length pre + length rest] pk)
       (process_elems rt rest pk)"
proof (induction rt j pk and rt ks cur pk and rt rest pk
    arbitrary: n b h v and n b h r and n b h r pre
    rule: processObjectFields_process_keys_process_elems.induct)
  case (1 rt ps privateKey)
  from "1.prems"(2) obtain m where n: "n = Suc m" and d: "props_depth ps < m"
    by (cases n) auto
  have "depth (JObj ps) \<le> Suc m" using d by simp
  from s_clone_total(1) [OF "1.prems"(1) this]
  obtain h1 v1 where c: "s_clone (Suc m) h v = Some (h1, v1)" by auto
  from s_clone_keys_inv [OF "1.prems"(1) c] obtain r where v1: "v1 = VRef r"
    and i: "keys_inv (length h) h1 r ps" and k: "map fst (props_of (h1 ! r)) = map fst ps"
    by blast
  from i obtain vs where o: "h1 ! r = Obj vs" unfolding keys_inv_def by blast
  have "keys_sim (length h) r (s_process_keys m rt h1 r (map fst ps) privateKey)
          (process_keys rt (map fst ps) ps privateKey)"
    using i d by (rule "1.IH")
  from walk_sim_keys [OF this] show ?case
    using n c v1 o k by (simp add: props_of_def)
next
  case (2 rt xs privateKey)
  from "2.prems"(2) obtain m where n: "n = Suc m" and d: "elems_depth xs < m"
    by (cases n) auto
  have "depth (JArr xs) \<le> Suc m" using d by simp
  from s_clone_total(1) [OF "2.prems"(1) this]
  obtain h1 v1 where c: "s_clone (Suc m) h v = Some (h1, v1)" by auto
  from s_clone_elems_inv [OF "2.prems"(1) c] obtain r where v1: "v1 = VRef r"
    and i: "elems_inv (length h) h1 r xs"
    by blast
  from i obtain ws where o: "h1 ! r = Arr ws" unfolding elems_inv_def by blast
  have l: "length ws = length xs"
    using elems_inv_here [OF i] o by (auto simp: elems_of_def dest: list_all2_lengthD)
  have "elems_inv (length h) h1 r ([] @ xs)" using i by simp
  then have "elems_sim (length h) r []
          (s_process_indices m rt h1 r [length ([] :: json list) ..< length ([] :: json list) + length xs] privateKey)
          (process_elems rt xs privateKey)"
    using d by (rule "2.IH")
  from walk_sim_elems [OF this] show ?case
    using n c v1 o l by simp
next
  case (3 rt privateKey)
  then show ?case by (cases n) (auto simp: walk_sim_def)
next
  case (4 rt x privateKey)
  then show ?case by (cases n) (auto simp: walk_sim_def)
next
  case (5 rt x privateKey)
  then show ?case by (cases n) (auto simp: walk_sim_def)
next
  case (6 rt s privateKey)
  then show ?case by (cases n) (auto simp: walk_sim_def)
next
  case (7 rt configJson privateKey)
  then show ?case by (simp add: keys_sim_def)
next
  case (8 rt key keys configJson privateKey)
  note i = "8.prems"(1) and d = "8.prems"(2)
  note ps = process_keys.simps(2) [of rt key keys configJson privateKey]
  note ss = s_process_keys.simps(2) [of n rt h r key keys privateKey]
  note lk = rel_props_lookup [OF keys_inv_here [OF i], of key]
  show ?case
  proof (cases "prefix (js ''_'') key")
    case True
    have "keys_sim b r
        (s_process_keys n rt (h[r := Obj (v_default_alias key (props_of (h ! r)))]) r keys privateKey)
        (process_keys rt keys (default_alias key configJson) privateKey)"
      using True keys_inv_alias [OF i]
    proof (rule "8.IH"(1))
      show "props_depth (default_alias key configJson) < n"
        using props_depth_default_alias [of key configJson] d by linarith
    qed
    then show ?thesis unfolding ps ss using True by simp
  next
    case False
    show ?thesis
    proof (cases "map_of configJson key")
      case None
      then have "map_of (props_of (h ! r)) key = None" using lk by simp
      then show ?thesis unfolding ps ss using False None "8.IH"(2) [OF False None i d] by simp
    next
      case (Some x)
      then obtain w where w: "map_of (props_of (h ! r)) key = Some w" using lk by auto
      then have rw: "rep b h w x" using lk Some by blast
      note sc = rep_scalars [OF rw]
      note dx = depth_lookup [OF Some]
      consider (str) "is_string x \<and> prefix (js ''EJ['') (string_of x)"
        | (obj) "\<not> (is_string x \<and> prefix (js ''EJ['') (string_of x))" "typeof_object x"
        | (other) "\<not> (is_string x \<and> prefix (js ''EJ['') (string_of x))" "\<not> typeof_object x"
        by blast
      then show ?thesis
      proof cases
        case str
        then have e: "v_encrypted w" using sc(2) by (simp add: encrypted_def)
        show ?thesis
        proof (cases "decrypt_value rt (string_of x) privateKey")
          case (Inl err)
          then show ?thesis unfolding ps ss using False Some w e str sc(3)
            by (simp add: keys_sim_def)
        next
          case (Inr plain)
          have "keys_inv b (h[r := Obj (set_prop key (VStr plain) (props_of (h ! r)))]) r
                  (set_prop key (JStr plain) configJson)"
            using i by (rule keys_inv_set) simp_all
          moreover have "props_depth (set_prop key (JStr plain) configJson) < n"
            using props_depth_set_prop [of key "JStr plain" configJson] d by simp
          ultimately have "keys_sim b r
              (s_process_keys n rt (h[r := Obj (set_prop key (VStr plain) (props_of (h ! r)))]) r keys privateKey)
              (process_keys rt keys (set_prop key (JStr plain) configJson) privateKey)"
            by (rule "8.IH"(3) [OF False Some str Inr])
          then show ?thesis unfolding ps ss using False Some w e str sc(3) Inr by simp
        qed
      next
        case obj
        have ne: "(is_string x \<and> prefix (js ''EJ['') (string_of x)) = False" using obj(1) by blast
        from obj have e: "\<not> v_encrypted w" "v_typeof_object w"
          using sc(2,4) by (simp_all add: encrypted_def)
        have "depth x < n" using dx d by simp
        with rw have sim: "walk_sim (length h) (s_processObjectFields n rt h w privateKey)
            (processObjectFields rt x privateKey)"
          by (rule "8.IH"(4) [OF False Some obj])
        show ?thesis
        proof (cases "processObjectFields rt x privateKey")
          case (Inl err)
          then obtain h1 where "s_processObjectFields n rt h w privateKey = Some (h1, Inl err)"
            using sim by (auto simp: walk_sim_def)
          then show ?thesis unfolding ps ss using False Some w e obj(2) Inl
            by (simp add: keys_sim_def ne)
        next
          case (Inr x')
          then obtain h1 w' where s: "s_processObjectFields n rt h w privateKey = Some (h1, Inr w')"
            and rw': "rep (length h) h1 w' x'"
            using sim by (auto simp: walk_sim_def)
          have p: "prefix h h1" using s_walk_frame(1) [OF s] by blast
          have "keys_inv b (h1[r := Obj (set_prop key w' (props_of (h1 ! r)))]) r
                  (set_prop key x' configJson)"
            using i p rw' by (rule keys_inv_set)
          moreover have "props_depth (set_prop key x' configJson) < n"
            using props_depth_set_prop [of key x' configJson] d dx walker_depth(1) [OF Inr]
            by simp
          ultimately have "keys_sim b r
              (s_process_keys n rt (h1[r := Obj (set_prop key w' (props_of (h1 ! r)))]) r keys privateKey)
              (process_keys rt keys (set_prop key x' configJson) privateKey)"
            by (rule "8.IH"(5) [OF False Some obj Inr])
          then show ?thesis unfolding ps ss using False Some w e obj(2) Inr s by (simp add: ne)
        qed
      next
        case other
        have ne: "(is_string x \<and> prefix (js ''EJ['') (string_of x)) = False" using other(1) by blast
        from other have e: "\<not> v_encrypted w" "\<not> v_typeof_object w"
          using sc(2,4) by (simp_all add: encrypted_def)
        show ?thesis unfolding ps ss
          using False Some w e other(2) "8.IH"(6) [OF False Some other i d] by (simp add: ne)
      qed
    qed
  qed
next
  case (9 rt privateKey)
  then show ?case by (simp add: elems_sim_def)
next
  case (10 rt x xs privateKey)
  note i = "10.prems"(1) and d = "10.prems"(2)
  let ?i = "length pre"
  let ?is = "[Suc ?i ..< ?i + length (x # xs)]"
  note ps = process_elems.simps(2) [of rt x xs privateKey]
  have u: "[?i ..< ?i + length (x # xs)] = ?i # ?is" by (rule upt_conv_Cons) simp
  note ss = s_process_indices.simps(2) [of n rt h r ?i ?is privateKey]
  define w where "w = elems_of (h ! r) ! ?i"
  have rw: "rep b h w x"
    using list_all2_nthD2 [OF elems_inv_here [OF i], of ?i] unfolding w_def by simp
  note sc = rep_scalars [OF rw]
  have dx: "depth x < n" "elems_depth xs < n" using d by auto
  have nxt: "[Suc ?i ..< ?i + length (x # xs)] = [length (pre @ [y]) ..< length (pre @ [y]) + length xs]"
    for y :: json by simp
  have upd: "(pre @ x # xs)[?i := y] = (pre @ [y]) @ xs" for y by simp
  consider (str) "is_string x \<and> prefix (js ''EJ['') (string_of x)"
    | (obj) "\<not> (is_string x \<and> prefix (js ''EJ['') (string_of x))" "typeof_object x"
    | (other) "\<not> (is_string x \<and> prefix (js ''EJ['') (string_of x))" "\<not> typeof_object x"
    by blast
  then show ?case
  proof cases
    case str
    then have e: "v_encrypted w" using sc(2) by (simp add: encrypted_def)
    show ?thesis
    proof (cases "decrypt_value rt (string_of x) privateKey")
      case (Inl err)
      then show ?thesis unfolding ps u ss using e str sc(3) w_def
        by (simp add: elems_sim_def Let_def)
    next
      case (Inr plain)
      have "elems_inv b (h[r := Arr ((elems_of (h ! r))[?i := VStr plain])]) r
              ((pre @ x # xs)[?i := JStr plain])"
        using i by (rule elems_inv_set) simp_all
      then have "elems_inv b (h[r := Arr ((elems_of (h ! r))[?i := VStr plain])]) r
              ((pre @ [JStr plain]) @ xs)"
        unfolding upd .
      then have "elems_sim b r (pre @ [JStr plain])
          (s_process_indices n rt (h[r := Arr ((elems_of (h ! r))[?i := VStr plain])]) r
             [length (pre @ [JStr plain]) ..< length (pre @ [JStr plain]) + length xs] privateKey)
          (process_elems rt xs privateKey)"
        using dx(2) by (rule "10.IH"(1) [OF str Inr])
      from elems_sim_Cons [OF this] show ?thesis
        unfolding ps u ss nxt [of "JStr plain"] using e str sc(3) w_def Inr
        by (simp add: Let_def)
    qed
  next
    case obj
    have ne: "(is_string x \<and> prefix (js ''EJ['') (string_of x)) = False" using obj(1) by blast
    from obj have e: "\<not> v_encrypted w" "v_typeof_object w"
      using sc(2,4) by (simp_all add: encrypted_def)
    from rw dx(1) have sim: "walk_sim (length h) (s_processObjectFields n rt h w privateKey)
        (processObjectFields rt x privateKey)"
      by (rule "10.IH"(2) [OF obj])
    show ?thesis
    proof (cases "processObjectFields rt x privateKey")
      case (Inl err)
      then obtain h1 where "s_processObjectFields n rt h w privateKey = Some (h1, Inl err)"
        using sim by (auto simp: walk_sim_def)
      then show ?thesis unfolding ps u ss using e obj(2) Inl w_def
        by (simp add: elems_sim_def Let_def ne)
    next
      case (Inr x')
      then obtain h1 w' where s: "s_processObjectFields n rt h w privateKey = Some (h1, Inr w')"
        and rw': "rep (length h) h1 w' x'"
        using sim by (auto simp: walk_sim_def)
      have p: "prefix h h1" using s_walk_frame(1) [OF s] by blast
      have "elems_inv b (h1[r := Arr ((elems_of (h1 ! r))[?i := w'])]) r
              ((pre @ x # xs)[?i := x'])"
        using i p rw' by (rule elems_inv_set)
      then have "elems_inv b (h1[r := Arr ((elems_of (h1 ! r))[?i := w'])]) r
              ((pre @ [x']) @ xs)"
        unfolding upd .
      then have "elems_sim b r (pre @ [x'])
          (s_process_indices n rt (h1[r := Arr ((elems_of (h1 ! r))[?i := w'])]) r
             [length (pre @ [x']) ..< length (pre @ [x']) + length xs] privateKey)
          (process_elems rt xs privateKey)"
        using dx(2) by (rule "10.IH"(3) [OF obj Inr])
      from elems_sim_Cons [OF this] show ?thesis
        unfolding ps u ss nxt [of x'] using e obj(2) w_def Inr s
        by (simp add: Let_def ne)
    qed
  next
    case other
    have ne: "(is_string x \<and> prefix (js ''EJ['') (string_of x)) = False" using other(1) by blast
    from other have e: "\<not> v_encrypted w" "\<not> v_typeof_object w"
      using sc(2,4) by (simp_all add: encrypted_def)
    have "elems_inv b h r ((pre @ [x]) @ xs)" using i by simp
    then have "elems_sim b r (pre @ [x])
        (s_process_indices n rt h r
           [length (pre @ [x]) ..< length (pre @ [x]) + length xs] privateKey)
        (process_elems rt xs privateKey)"
      using dx(2) by (rule "10.IH"(4) [OF other])
    from elems_sim_Cons [OF this] show ?thesis
      unfolding ps u ss nxt [of x] using e other(2) w_def
      by (simp add: Let_def ne)
  qed
qed

section \<open>The claims\<close>

subsection \<open>C1: the token parser and its grammar\<close>

text \<open>
  C1, as the specification states it, lets the ciphertext field hold any characters. The
  field is matched by \<^verbatim>\<open>(.+)\<close>, which does not cross a line terminator: a string with a line
  feed in that field has the specification's shape, with the fields \<open>newline_token_fields\<close>,
  and \<open>parseEncryptedValue\<close> rejects it.
\<close>

theorem C1_any_character_counterexample:
  "spec_grammar newline_token newline_token_fields \<and>
   parseEncryptedValue newline_token = Inl (Error (js ''Invalid EJSON: '' @ newline_token))"
proof
  have "newline_token =
      js ''EJ['' @ [0x31] @ js '':'' @ js ''jeDOl5qTBwflgRuusXrqoT5eclnznLKuCp8fxbuHjGg='' @ js '':''
        @ js ''fRVLp8YU/m9sb04HKAN9r8RVzLNWkdTu'' @ js '':'' @ (js ''uhoM'' @ [0x000A] @ js ''KBnF'') @ js '']'' \<and>
     digit_class 0x31 \<and>
     length (js ''jeDOl5qTBwflgRuusXrqoT5eclnznLKuCp8fxbuHjGg='') = 44 \<and>
     list_all base64_class (js ''jeDOl5qTBwflgRuusXrqoT5eclnznLKuCp8fxbuHjGg='') \<and>
     length (js ''fRVLp8YU/m9sb04HKAN9r8RVzLNWkdTu'') = 32 \<and>
     list_all base64_class (js ''fRVLp8YU/m9sb04HKAN9r8RVzLNWkdTu'') \<and>
     js ''uhoM'' @ [0x000A] @ js ''KBnF'' \<noteq> [] \<and>
     list_all (\<lambda>c. True) (js ''uhoM'' @ [0x000A] @ js ''KBnF'') \<and>
     newline_token_fields =
       \<lparr>schemaVersion = Some (digit_value 0x31),
        encrypterPublic = js ''jeDOl5qTBwflgRuusXrqoT5eclnznLKuCp8fxbuHjGg='',
        nonce = js ''fRVLp8YU/m9sb04HKAN9r8RVzLNWkdTu'',
        box = js ''uhoM'' @ [0x000A] @ js ''KBnF''\<rparr>"
    by (simp add: newline_token_def newline_token_fields_def js_def digit_class_def
        base64_class_def in_range_def digit_value_def)
  then show "spec_grammar newline_token newline_token_fields"
    unfolding spec_grammar_def token_grammar_def by blast
next
  show "parseEncryptedValue newline_token = Inl (Error (js ''Invalid EJSON: '' @ newline_token))"
    by (simp add: parseEncryptedValue_def str_match_def ejsonRegex_def newline_token_def js_def
        digit_class_def base64_class_def in_range_def dot_class_def line_terminator_def prefix_def)
qed

text \<open>
  C1, amended: for every string \<open>s\<close>, \<open>parseEncryptedValue s\<close> succeeds exactly when \<open>s\<close>,
  from its first character to its last, is \<^verbatim>\<open>EJ[\<close>, one decimal digit, \<^verbatim>\<open>:\<close>, 44 characters of
  \<^verbatim>\<open>[A-Za-z0-9+=/]\<close>, \<^verbatim>\<open>:\<close>, 32 such characters, \<^verbatim>\<open>:\<close>, one or more characters none of which
  is a line terminator, and \<^verbatim>\<open>]\<close>. On success the result holds the digit as an integer and
  the three fields; on any other string the result is the one error
  \<^verbatim>\<open>Error('Invalid EJSON: ' + s)\<close>, which carries the offending string.
\<close>

theorem C1_parse_iff_grammar:
  "(parseEncryptedValue s = Inr t \<longleftrightarrow> regex_grammar s t) \<and>
   (parseEncryptedValue s = Inl e \<longleftrightarrow>
      (\<forall>t. \<not> regex_grammar s t) \<and> e = Error (js ''Invalid EJSON: '' @ s))"
  using parse_Inr_iff parse_Inl_iff by blast

text \<open>The theorem at the token of the repository's test file.\<close>

theorem C1_parse_test_secret_witness:
  "parseEncryptedValue test_secret =
     Inr \<lparr>schemaVersion = Some 1,
          encrypterPublic = js ''jeDOl5qTBwflgRuusXrqoT5eclnznLKuCp8fxbuHjGg='',
          nonce = js ''fRVLp8YU/m9sb04HKAN9r8RVzLNWkdTu'',
          box = js ''uhoMKBnFTUDSO5nayF/Wx/D+d8dPBIlLUJq8KA==''\<rparr>"
proof -
  let ?t = "\<lparr>schemaVersion = Some 1,
          encrypterPublic = js ''jeDOl5qTBwflgRuusXrqoT5eclnznLKuCp8fxbuHjGg='',
          nonce = js ''fRVLp8YU/m9sb04HKAN9r8RVzLNWkdTu'',
          box = js ''uhoMKBnFTUDSO5nayF/Wx/D+d8dPBIlLUJq8KA==''\<rparr>"
  have "test_secret =
      js ''EJ['' @ [0x31] @ js '':'' @ js ''jeDOl5qTBwflgRuusXrqoT5eclnznLKuCp8fxbuHjGg='' @ js '':''
        @ js ''fRVLp8YU/m9sb04HKAN9r8RVzLNWkdTu'' @ js '':''
        @ js ''uhoMKBnFTUDSO5nayF/Wx/D+d8dPBIlLUJq8KA=='' @ js '']'' \<and>
     digit_class 0x31 \<and>
     length (js ''jeDOl5qTBwflgRuusXrqoT5eclnznLKuCp8fxbuHjGg='') = 44 \<and>
     list_all base64_class (js ''jeDOl5qTBwflgRuusXrqoT5eclnznLKuCp8fxbuHjGg='') \<and>
     length (js ''fRVLp8YU/m9sb04HKAN9r8RVzLNWkdTu'') = 32 \<and>
     list_all base64_class (js ''fRVLp8YU/m9sb04HKAN9r8RVzLNWkdTu'') \<and>
     js ''uhoMKBnFTUDSO5nayF/Wx/D+d8dPBIlLUJq8KA=='' \<noteq> [] \<and>
     list_all dot_class (js ''uhoMKBnFTUDSO5nayF/Wx/D+d8dPBIlLUJq8KA=='') \<and>
     ?t = \<lparr>schemaVersion = Some (digit_value 0x31),
        encrypterPublic = js ''jeDOl5qTBwflgRuusXrqoT5eclnznLKuCp8fxbuHjGg='',
        nonce = js ''fRVLp8YU/m9sb04HKAN9r8RVzLNWkdTu'',
        box = js ''uhoMKBnFTUDSO5nayF/Wx/D+d8dPBIlLUJq8KA==''\<rparr>"
    by (simp add: test_secret_def js_def digit_class_def base64_class_def in_range_def
        digit_value_def dot_class_def line_terminator_def)
  then have "regex_grammar test_secret ?t"
    unfolding regex_grammar_def token_grammar_def by blast
  then show ?thesis using C1_parse_iff_grammar [of test_secret ?t] by blast
qed

subsection \<open>C3: a document without a public key\<close>

text \<open>
  C3 says that a document whose root has no \<^verbatim>\<open>_public_key\<close> fails with a missing-key error
  before the resolver is called. \<open>processEjson\<close> has no such check. On the empty object, with a
  resolver that answers every call, the resolver is called once, with \<^verbatim>\<open>undefined\<close>, and the
  call succeeds.
\<close>

theorem C3_no_check_counterexample:
  "processEjson demo_runtime (\<lambda>publicKey. Inr (js ''00'')) (JObj []) =
     \<lparr>outcome = Inr (JObj []), resolver_calls = [None]\<rparr>"
  by (simp add: processEjson_def public_key_field_def)

text \<open>
  C3, amended: for every document whose root mapping has no \<^verbatim>\<open>_public_key\<close> field,
  \<open>processEjson\<close> calls the key-resolution function exactly once, with \<^verbatim>\<open>undefined\<close>; if that
  call fails, the operation fails with the resolver's error, and otherwise the document is
  walked with the key the resolver returned.
\<close>

theorem C3_resolver_called_with_undefined:
  assumes "map_of ps (js ''_public_key'') = None"
  shows "processEjson rt getPrivateKey (JObj ps) =
     \<lparr>outcome = (case getPrivateKey None of
                   Inl e \<Rightarrow> Inl e
                 | Inr privateKey \<Rightarrow> processObjectFields rt (JObj ps) privateKey),
      resolver_calls = [None]\<rparr>"
  using assms by (simp add: processEjson_def public_key_field_def split: sum.splits)

theorem C3_resolver_called_with_undefined_witness:
  "map_of [(js ''a'', JNum 1)] (js ''_public_key'') = None \<and>
   processEjson demo_runtime (\<lambda>publicKey. Inl (Error (js ''no key''))) (JObj [(js ''a'', JNum 1)]) =
     \<lparr>outcome = Inl (Error (js ''no key'')), resolver_calls = [None]\<rparr>"
proof -
  have h: "map_of [(js ''a'', JNum 1)] (js ''_public_key'') = None"
    by (simp add: js_def)
  show ?thesis
    using h C3_resolver_called_with_undefined
      [OF h, of demo_runtime "\<lambda>publicKey. Inl (Error (js ''no key''))"]
    by simp
qed

subsection \<open>C4: the default alias\<close>

text \<open>
  C4 says that a key \<^verbatim>\<open>name\<close> that is present keeps its value whatever that value is, a falsy
  one included. The source tests \<^verbatim>\<open>!configJson[keyName]\<close>, the truth of the value and not the
  presence of the key: on \<^verbatim>\<open>{"_x": "v", "x": ""}\<close> the key \<^verbatim>\<open>x\<close> is present, with the empty
  string, and the walker overwrites it with \<^verbatim>\<open>"v"\<close>.
\<close>

theorem C4_falsy_sibling_overwritten:
  "processObjectFields rt (JObj [(js ''_x'', JStr (js ''v'')), (js ''x'', JStr [])]) privateKey =
     Inr (JObj [(js ''_x'', JStr (js ''v'')), (js ''x'', JStr (js ''v''))])"
  by (simp add: process_keys_Cons visit_def default_alias_def truthy_lookup_def set_prop_def Let_def
      encrypted_def is_string_def string_of_def typeof_object_def js_def prefix_def)

subsection \<open>C5: a ciphertext that fails authentication\<close>

text \<open>
  C5 says that the codec's open operation returns an explicit failure indicator when
  authentication fails. \<open>decrypt\<close> does not look at what \<^verbatim>\<open>nacl.box.open\<close> returned: whenever
  the primitive reports the failure (it returns \<^verbatim>\<open>null\<close>), \<open>decrypt\<close> passes the \<^verbatim>\<open>null\<close> on to
  \<^verbatim>\<open>Buffer.from\<close> and ends in the \<^verbatim>\<open>TypeError\<close> thrown there.
\<close>

theorem C5_rejected_ciphertext_throws:
  assumes "nacl_box_open rt (from_base64 rt message) (from_base64 rt nonce')
             (from_base64 rt theirPublicKey) (from_hex rt mySecretKey) = Inr None"
  shows "decrypt rt message nonce' theirPublicKey mySecretKey = Inl TypeError"
  using assms by (simp add: decrypt_def)

theorem C5_rejected_ciphertext_throws_witness:
  "nacl_box_open demo_runtime (from_base64 demo_runtime (js ''tampered''))
     (from_base64 demo_runtime (js ''nonce'')) (from_base64 demo_runtime (js ''A''))
     (from_hex demo_runtime (js ''01'')) = Inr None \<and>
   decrypt demo_runtime (js ''tampered'') (js ''nonce'') (js ''A'') (js ''01'') = Inl TypeError"
proof -
  have h: "nacl_box_open demo_runtime (from_base64 demo_runtime (js ''tampered''))
     (from_base64 demo_runtime (js ''nonce'')) (from_base64 demo_runtime (js ''A''))
     (from_hex demo_runtime (js ''01'')) = Inr None"
    by (simp add: demo_runtime_def demo_box_open_def demo_shared_def js_def prefix_def)
  show ?thesis using h C5_rejected_ciphertext_throws [OF h] by simp
qed

subsection \<open>C2: sealing and opening\<close>

text \<open>
  Modelled from the spec: the box primitive of \<^verbatim>\<open>lib/nacl-fast.js\<close> (\<^verbatim>\<open>nacl.box\<close>,
  \<^verbatim>\<open>nacl.box.open\<close>) is missing from the source files. The specification asks of it "the
  standard key-agreement symmetry": a message sealed under a 24-byte nonce with the recipient's
  public key and the sender's private key is opened, under the same nonce, with the sender's
  public key and the recipient's private key. \<open>public_of\<close> gives the public key of a 32-byte
  private key.
\<close>

definition box_symmetry :: "runtime \<Rightarrow> (bytes \<Rightarrow> bytes) \<Rightarrow> bool" where
  "box_symmetry rt public_of =
     (\<forall>m n sender recipient.
        length n = 24 \<and> length sender = 32 \<and> length recipient = 32 \<longrightarrow>
        (\<exists>c. nacl_box rt m n (public_of recipient) sender = Inr c \<and>
             nacl_box_open rt c n (public_of sender) recipient = Inr (Some m)))"

text \<open>
  Modelled from the spec: \<^verbatim>\<open>Buffer\<close> is missing from the source files as well. The codec
  "re-encodes results to text": decoding the base64 text of a buffer gives the buffer back.
\<close>

definition base64_round_trip :: "runtime \<Rightarrow> bool" where
  "base64_round_trip rt = (\<forall>b. from_base64 rt (to_base64 rt b) = b)"

text \<open>
  C2: for every plaintext \<open>P\<close> (a text that UTF-8 encodes and decodes to itself), every nonce
  text \<open>N\<close> of 24 raw bytes and every two key pairs, \<open>encrypt\<close> of \<open>P\<close> with \<open>N\<close>, the
  recipient's public key and the sender's private key succeeds, and \<open>decrypt\<close> of its result
  with \<open>N\<close>, the sender's public key and the recipient's private key returns \<open>P\<close>.
\<close>

theorem C2_round_trip:
  assumes "box_symmetry rt public_of" and "base64_round_trip rt"
    and "to_utf8 rt (from_utf8 rt P) = P"
    and "length (from_base64 rt N) = 24"
    and "length (from_hex rt senderPrivate) = 32"
    and "length (from_hex rt recipientPrivate) = 32"
    and "from_base64 rt senderPublic = public_of (from_hex rt senderPrivate)"
    and "from_base64 rt recipientPublic = public_of (from_hex rt recipientPrivate)"
  shows "\<exists>C. encrypt rt P N recipientPublic senderPrivate = Inr C \<and>
             decrypt rt C N senderPublic recipientPrivate = Inr P"
proof -
  from assms(1,4,5,6) obtain c where
    c: "nacl_box rt (from_utf8 rt P) (from_base64 rt N)
          (public_of (from_hex rt recipientPrivate)) (from_hex rt senderPrivate) = Inr c"
       "nacl_box_open rt c (from_base64 rt N)
          (public_of (from_hex rt senderPrivate)) (from_hex rt recipientPrivate)
          = Inr (Some (from_utf8 rt P))"
    unfolding box_symmetry_def by blast
  have e: "encrypt rt P N recipientPublic senderPrivate = Inr (to_base64 rt c)"
    using c(1) assms(8) by (simp add: encrypt_def)
  have "from_base64 rt (to_base64 rt c) = c"
    using assms(2) by (simp add: base64_round_trip_def)
  then have "decrypt rt (to_base64 rt c) N senderPublic recipientPrivate = Inr P"
    using c(2) assms(3,7) by (simp add: decrypt_def)
  with e show ?thesis by blast
qed

text \<open>
  The hypotheses hold of the stand-in runtime, with the identity for \<open>public_of\<close>; the theorem
  then gives the round trip of \<^verbatim>\<open>Hello World!\<close>.
\<close>

lemma demo_box_symmetry: "box_symmetry demo_runtime (\<lambda>sk. sk)"
  by (simp add: box_symmetry_def demo_runtime_def demo_box_def demo_box_open_def
      demo_shared_def add.commute)

lemma ucast_up_down: "map (ucast :: 16 word \<Rightarrow> 8 word) (map (ucast :: 8 word \<Rightarrow> 16 word) b) = b"
  by (induction b) (simp_all add: ucast_up_ucast_id is_up)

lemma demo_base64_round_trip: "base64_round_trip demo_runtime"
  by (simp add: base64_round_trip_def demo_runtime_def ucast_up_down del: map_map)

theorem C2_round_trip_witness:
  "box_symmetry demo_runtime (\<lambda>sk. sk) \<and> base64_round_trip demo_runtime \<and>
   to_utf8 demo_runtime (from_utf8 demo_runtime (js ''Hello World!'')) = js ''Hello World!'' \<and>
   length (from_base64 demo_runtime (js ''NNNNNNNNNNNNNNNNNNNNNNNN'')) = 24 \<and>
   length (from_hex demo_runtime (js ''ssssssssssssssssssssssssssssssss'')) = 32 \<and>
   length (from_hex demo_runtime (js ''rrrrrrrrrrrrrrrrrrrrrrrrrrrrrrrr'')) = 32 \<and>
   from_base64 demo_runtime (js ''ssssssssssssssssssssssssssssssss'') =
     from_hex demo_runtime (js ''ssssssssssssssssssssssssssssssss'') \<and>
   from_base64 demo_runtime (js ''rrrrrrrrrrrrrrrrrrrrrrrrrrrrrrrr'') =
     from_hex demo_runtime (js ''rrrrrrrrrrrrrrrrrrrrrrrrrrrrrrrr'') \<and>
   (\<exists>C. encrypt demo_runtime (js ''Hello World!'') (js ''NNNNNNNNNNNNNNNNNNNNNNNN'')
            (js ''rrrrrrrrrrrrrrrrrrrrrrrrrrrrrrrr'') (js ''ssssssssssssssssssssssssssssssss'') = Inr C \<and>
        decrypt demo_runtime C (js ''NNNNNNNNNNNNNNNNNNNNNNNN'')
            (js ''ssssssssssssssssssssssssssssssss'') (js ''rrrrrrrrrrrrrrrrrrrrrrrrrrrrrrrr'')
          = Inr (js ''Hello World!''))"
proof -
  have 3: "to_utf8 demo_runtime (from_utf8 demo_runtime (js ''Hello World!'')) = js ''Hello World!''"
    by (simp add: demo_runtime_def js_def)
  have 4: "length (from_base64 demo_runtime (js ''NNNNNNNNNNNNNNNNNNNNNNNN'')) = 24"
    by (simp add: demo_runtime_def js_def)
  have 5: "length (from_hex demo_runtime (js ''ssssssssssssssssssssssssssssssss'')) = 32"
    by (simp add: demo_runtime_def js_def)
  have 6: "length (from_hex demo_runtime (js ''rrrrrrrrrrrrrrrrrrrrrrrrrrrrrrrr'')) = 32"
    by (simp add: demo_runtime_def js_def)
  have 7: "from_base64 demo_runtime (js ''ssssssssssssssssssssssssssssssss'') =
     from_hex demo_runtime (js ''ssssssssssssssssssssssssssssssss'')"
    by (simp add: demo_runtime_def)
  have 8: "from_base64 demo_runtime (js ''rrrrrrrrrrrrrrrrrrrrrrrrrrrrrrrr'') =
     from_hex demo_runtime (js ''rrrrrrrrrrrrrrrrrrrrrrrrrrrrrrrr'')"
    by (simp add: demo_runtime_def)
  from C2_round_trip [of demo_runtime "\<lambda>sk. sk", OF demo_box_symmetry demo_base64_round_trip 3 4 5 6 7 8]
  show ?thesis using demo_box_symmetry demo_base64_round_trip 3 4 5 6 7 8 by blast
qed

subsection \<open>C6: the first failure aborts the walk\<close>

text \<open>
  C6 says that the error of an aborted walk names the offending key path. Nothing in the source
  adds the key to an error: the parser's error carries the string it rejected, and the walker
  passes on what the parser or the codec threw. The same malformed string under two different
  keys gives the same error.
\<close>

theorem C6_error_without_key_counterexample:
  "processObjectFields demo_runtime (JObj [(js ''alpha'', JStr (js ''EJ[x]''))]) (js ''00'') =
     Inl (Error (js ''Invalid EJSON: EJ[x]'')) \<and>
   processObjectFields demo_runtime (JObj [(js ''beta'', JStr (js ''EJ[x]''))]) (js ''00'') =
     Inl (Error (js ''Invalid EJSON: EJ[x]''))"
  by (simp add: process_keys_Cons visit_def encrypted_def is_string_def string_of_def
      decrypt_value_def parseEncryptedValue_def str_match_def ejsonRegex_def
      js_def prefix_def digit_class_def in_range_def)

text \<open>
  C6, amended: for every document in which some traversed string value starting with \<^verbatim>\<open>EJ[\<close>
  fails the token parser or the box codec, the whole operation aborts at the first such
  failure, with the error the parser or the codec threw. In the terms of the model: when the
  keys (or elements) before the failing one have been visited and the visit of the next
  fails, the loop fails with that error whatever follows it; a visit fails exactly when the
  value at a key without underscore is an encrypted string whose parsing or opening fails, or
  an object or array whose own walk fails; and the failure of the root's walk is the outcome
  of \<open>processEjson\<close>. A result is an error or a document, never both.
\<close>

theorem C6_fail_fast:
  "(process_keys rt ks1 cur pk = Inr cur1 \<and> visit rt k cur1 pk = Inl e \<longrightarrow>
      process_keys rt (ks1 @ k # ks2) cur pk = Inl e) \<and>
   (process_elems rt xs1 pk = Inr ys1 \<and> process_value rt x pk = Inl e \<longrightarrow>
      process_elems rt (xs1 @ x # xs2) pk = Inl e) \<and>
   (visit rt k cur pk = Inl e \<longleftrightarrow>
      \<not> prefix (js ''_'') k \<and> (\<exists>v. map_of cur k = Some v \<and> process_value rt v pk = Inl e)) \<and>
   (process_value rt v pk = Inl e \<longleftrightarrow>
      (if encrypted v then decrypt_value rt (string_of v) pk = Inl e
       else typeof_object v \<and> processObjectFields rt v pk = Inl e)) \<and>
   (decrypt_value rt s pk = Inl e \<longleftrightarrow>
      parseEncryptedValue s = Inl e \<or>
      (\<exists>t. parseEncryptedValue s = Inr t \<and>
           decrypt rt (box t) (nonce t) (encrypterPublic t) pk = Inl e)) \<and>
   (processObjectFields rt (JObj ps) pk = Inl e \<longleftrightarrow> process_keys rt (map fst ps) ps pk = Inl e) \<and>
   (processObjectFields rt (JArr xs) pk = Inl e \<longleftrightarrow> process_elems rt xs pk = Inl e) \<and>
   (getPrivateKey (map_of ps (js ''_public_key'')) = Inr pk \<and>
    processObjectFields rt (JObj ps) pk = Inl e \<longrightarrow>
      outcome (processEjson rt getPrivateKey (JObj ps)) = Inl e)"
  using process_keys_abort [of rt ks1 cur pk cur1 k e ks2]
    process_elems_abort [of rt xs1 pk ys1 x e xs2]
    visit_Inl_iff [of rt k cur pk e] process_value_Inl_iff [of rt v pk e]
    decrypt_value_Inl_iff [of rt s pk e]
  by (auto simp: processEjson_def public_key_field_def split: sum.splits)

theorem C6_fail_fast_witness:
  "process_keys demo_runtime [js ''a'']
      [(js ''a'', JNum 1), (js ''b'', JStr (js ''EJ[x]'')), (js ''c'', JStr demo_token)] demo_key =
     Inr [(js ''a'', JNum 1), (js ''b'', JStr (js ''EJ[x]'')), (js ''c'', JStr demo_token)] \<and>
   visit demo_runtime (js ''b'')
      [(js ''a'', JNum 1), (js ''b'', JStr (js ''EJ[x]'')), (js ''c'', JStr demo_token)] demo_key =
     Inl (Error (js ''Invalid EJSON: EJ[x]'')) \<and>
   process_keys demo_runtime ([js ''a''] @ js ''b'' # [js ''c''])
      [(js ''a'', JNum 1), (js ''b'', JStr (js ''EJ[x]'')), (js ''c'', JStr demo_token)] demo_key =
     Inl (Error (js ''Invalid EJSON: EJ[x]'')) \<and>
   process_elems demo_runtime [JNum 1] demo_key = Inr [JNum 1] \<and>
   process_value demo_runtime (JStr (js ''EJ[x]'')) demo_key = Inl (Error (js ''Invalid EJSON: EJ[x]'')) \<and>
   process_elems demo_runtime ([JNum 1] @ JStr (js ''EJ[x]'') # [JStr demo_token]) demo_key =
     Inl (Error (js ''Invalid EJSON: EJ[x]'')) \<and>
   processObjectFields demo_runtime
      (JObj [(js ''a'', JNum 1), (js ''b'', JStr (js ''EJ[x]'')), (js ''c'', JStr demo_token)]) demo_key =
     Inl (Error (js ''Invalid EJSON: EJ[x]'')) \<and>
   outcome (processEjson demo_runtime (\<lambda>publicKey. Inr demo_key)
      (JObj [(js ''a'', JNum 1), (js ''b'', JStr (js ''EJ[x]'')), (js ''c'', JStr demo_token)])) =
     Inl (Error (js ''Invalid EJSON: EJ[x]''))"
proof -
  let ?doc = "[(js ''a'', JNum 1), (js ''b'', JStr (js ''EJ[x]'')), (js ''c'', JStr demo_token)]"
  let ?e = "Error (js ''Invalid EJSON: EJ[x]'')"
  note C = C6_fail_fast [of demo_runtime "[js ''a'']" ?doc demo_key ?doc "js ''b''" ?e "[js ''c'']"
      "[JNum 1]" "[JNum 1]" "JStr (js ''EJ[x]'')" "[JStr demo_token]" "JStr (js ''EJ[x]'')"
      "js ''EJ[x]''" ?doc "[]" "\<lambda>publicKey. Inr demo_key"]
  have k: "\<not> prefix (js ''_'') (js ''a'')" "\<not> prefix (js ''_'') (js ''b'')"
    "map_of ?doc (js ''a'') = Some (JNum 1)" "map_of ?doc (js ''b'') = Some (JStr (js ''EJ[x]''))"
    by (simp_all add: js_def prefix_def)
  have 1: "process_keys demo_runtime [js ''a''] ?doc demo_key = Inr ?doc"
    using scalar_visit [OF k(1) k(3), of demo_runtime demo_key]
    by (simp add: process_keys_Cons scalar_def)
  have 5: "process_value demo_runtime (JStr (js ''EJ[x]'')) demo_key = Inl ?e"
    using malformed_token(1) malformed_token(2) [of demo_runtime demo_key]
      by (simp add: process_value_def string_of_def)
  have 2: "visit demo_runtime (js ''b'') ?doc demo_key = Inl ?e"
    using 5 by (simp add: visit_value [OF k(2) k(4)])
  have 4: "process_elems demo_runtime [JNum 1] demo_key = Inr [JNum 1]"
    by (simp add: process_elems_Cons scalar_value scalar_def)
  have 3: "process_keys demo_runtime ([js ''a''] @ js ''b'' # [js ''c'']) ?doc demo_key = Inl ?e"
    using C 1 2 by blast
  have 6: "process_elems demo_runtime ([JNum 1] @ JStr (js ''EJ[x]'') # [JStr demo_token]) demo_key = Inl ?e"
    using C 4 5 by blast
  have m: "map fst ?doc = [js ''a''] @ js ''b'' # [js ''c'']" by simp
  have 7: "processObjectFields demo_runtime (JObj ?doc) demo_key = Inl ?e"
    using C 3 unfolding m by blast
  have 8: "outcome (processEjson demo_runtime (\<lambda>publicKey. Inr demo_key) (JObj ?doc)) = Inl ?e"
    using C 7 by blast
  show ?thesis using 1 2 3 4 5 6 7 8 by blast
qed

subsection \<open>C7: scalars and arrays\<close>




subsection \<open>C8: strings that are no tokens, and walking twice\<close>

lemma plain_string_rejected:
  assumes "\<not> prefix (js ''EJ['') s"
  shows "parseEncryptedValue s = Inl (Error (js ''Invalid EJSON: '' @ s))"
proof -
  have "\<not> regex_grammar s t" for t
    using assms by (auto simp: regex_grammar_def token_grammar_def)
  then show ?thesis by (simp add: parse_Inl_iff)
qed

lemma plain_string_visit:
  assumes "\<not> prefix (js ''EJ['') s" and "\<not> prefix (js ''_'') k" and "map_of cur k = Some (JStr s)"
  shows "visit rt k cur pk = Inr cur"
  using assms by (simp add: visit_value plain_text_value set_prop_same)

lemma walk_twice:
  assumes "represents h v j" and "depth j < n" and "depth j < m"
  shows "\<exists>h1 res1 h2 res2.
           s_processObjectFields n rt h v pk = Some (h1, res1) \<and>
           s_processObjectFields m rt h1 v pk = Some (h2, res2) \<and>
           (case processObjectFields rt j pk of
              Inl e \<Rightarrow> res1 = Inl e \<and> res2 = Inl e
            | Inr j' \<Rightarrow> \<exists>v1 v2. res1 = Inr v1 \<and> res2 = Inr v2 \<and>
                represents h2 v1 j' \<and> represents h2 v2 j')"
proof -
  from assms(1) have r: "rep 0 h v j" by (simp add: represents_def)
  note sim1 = walker_simulation(1) [OF r assms(2), of rt pk]
  then obtain h1 res1 where s1: "s_processObjectFields n rt h v pk = Some (h1, res1)"
    by (auto simp: walk_sim_def split: sum.splits)
  have p1: "prefix h h1" using s_walk_frame(1) [OF s1] by blast
  have r1: "rep 0 h1 v j" using r p1 by (rule rep_prefix)
  note sim2 = walker_simulation(1) [OF r1 assms(3), of rt pk]
  then obtain h2 res2 where s2: "s_processObjectFields m rt h1 v pk = Some (h2, res2)"
    by (auto simp: walk_sim_def split: sum.splits)
  have p2: "prefix h1 h2" using s_walk_frame(1) [OF s2] by blast
  show ?thesis
  proof (cases "processObjectFields rt j pk")
    case (Inl e)
    then show ?thesis using sim1 sim2 s1 s2 by (auto simp: walk_sim_def)
  next
    case (Inr j')
    then obtain v1 v2 where o: "res1 = Inr v1" "rep (length h) h1 v1 j'"
      "res2 = Inr v2" "rep (length h1) h2 v2 j'"
      using sim1 sim2 s1 s2 by (auto simp: walk_sim_def)
    have "rep 0 h2 v1 j'" using rep_prefix [OF rep_weaken [OF o(2)] p2] by simp
    moreover have "rep 0 h2 v2 j'" using rep_weaken [OF o(4)] by simp
    ultimately show ?thesis using Inr s1 s2 o(1,3) by (simp add: represents_def)
  qed
qed

text \<open>
  C8 says that a value that does not match the \<^verbatim>\<open>EJ[\<close> prefix is never grammar-checked or
  altered, and that decrypting the same document twice gives the same result each time.

  The decryption does what C8 says. A string \<open>s\<close> that does not start with \<^verbatim>\<open>EJ[\<close> is never
  handed to the token parser (which would reject it): where the walker reads it, under a key
  that starts with no underscore or as an array element, it hands it back and the visit
  leaves the clone as it was. In the document that a successful walk returns, an array
  element \<open>s\<close> is the same element, and \<open>s\<close> under a key \<open>k\<close> is still the value of \<open>k\<close> whenever
  \<open>s\<close> is not empty or the document has no key \<^verbatim>\<open>_k\<close>.

  The walker as a whole does not: the first branch of the loop tests the truth of the value
  of \<open>k\<close>, not the presence of \<open>k\<close>, so the visit of \<^verbatim>\<open>_k\<close> replaces an empty string under \<open>k\<close> by
  the value of \<^verbatim>\<open>_k\<close>. The document \<^verbatim>\<open>{"_x": "v", "x": ""}\<close> holds no token, its value \<^verbatim>\<open>""\<close> does
  not start with \<^verbatim>\<open>EJ[\<close>, and it is returned as \<^verbatim>\<open>{"_x": "v", "x": "v"}\<close>.

  Walking the same document twice, with the same key, gives the same outcome each time. On
  the store: for every value \<open>v\<close> that represents a document \<open>j\<close>, a call of the walker on \<open>v\<close>
  returns or throws, a second call on \<open>v\<close> in the store that the first one left does so too,
  and both outcomes are the outcome of the walker over values on \<open>j\<close>: the same error, or two
  values that represent the same decrypted document. The second call does the work again,
  since the first one has left the tokens of \<open>v\<close> in place.
\<close>

theorem C8_plain_strings_kept_and_walk_repeatable:
  "(\<not> prefix (js ''EJ['') s \<longrightarrow>
      parseEncryptedValue s = Inl (Error (js ''Invalid EJSON: '' @ s)) \<and>
      process_value rt (JStr s) pk = Inr (JStr s) \<and>
      (\<not> prefix (js ''_'') k \<and> map_of cur k = Some (JStr s) \<longrightarrow> visit rt k cur pk = Inr cur) \<and>
      ((s \<noteq> [] \<or> js ''_'' @ k \<notin> set (map fst ps)) \<and> map_of ps k = Some (JStr s) \<and>
         processObjectFields rt (JObj ps) pk = Inr d \<longrightarrow>
           (\<exists>ps'. d = JObj ps' \<and> map_of ps' k = Some (JStr s))) \<and>
      (i < length xs \<and> xs ! i = JStr s \<and> processObjectFields rt (JArr xs) pk = Inr d' \<longrightarrow>
         (\<exists>ys. d' = JArr ys \<and> length ys = length xs \<and> ys ! i = JStr s))) \<and>
   (map_of c k' = Some (JStr []) \<and> map_of c (js ''_'' @ k') = Some w \<longrightarrow>
      visit rt (js ''_'' @ k') c pk = Inr (set_prop k' w c)) \<and>
   processObjectFields rt (JObj [(js ''_x'', JStr (js ''v'')), (js ''x'', JStr [])]) pk =
     Inr (JObj [(js ''_x'', JStr (js ''v'')), (js ''x'', JStr (js ''v''))]) \<and>
   (represents h v j \<and> depth j < n \<and> depth j < m \<longrightarrow>
      (\<exists>h1 res1 h2 res2.
         s_processObjectFields n rt h v pk = Some (h1, res1) \<and>
         s_processObjectFields m rt h1 v pk = Some (h2, res2) \<and>
         (case processObjectFields rt j pk of
            Inl e \<Rightarrow> res1 = Inl e \<and> res2 = Inl e
          | Inr j' \<Rightarrow> \<exists>v1 v2. res1 = Inr v1 \<and> res2 = Inr v2 \<and>
              represents h2 v1 j' \<and> represents h2 v2 j')))"
proof (intro conjI impI)
  assume s: "\<not> prefix (js ''EJ['') s"
  show "parseEncryptedValue s = Inl (Error (js ''Invalid EJSON: '' @ s))"
    using s by (rule plain_string_rejected)
  show "process_value rt (JStr s) pk = Inr (JStr s)"
    using s by (rule plain_text_value)
  show "visit rt k cur pk = Inr cur"
    if "\<not> prefix (js ''_'') k \<and> map_of cur k = Some (JStr s)"
    using s that by (simp add: plain_string_visit)
  show "\<exists>ps'. d = JObj ps' \<and> map_of ps' k = Some (JStr s)"
    if a: "(s \<noteq> [] \<or> js ''_'' @ k \<notin> set (map fst ps)) \<and> map_of ps k = Some (JStr s) \<and>
         processObjectFields rt (JObj ps) pk = Inr d"
  proof -
    from a obtain ps' where w: "process_keys rt (map fst ps) ps pk = Inr ps'" and d: "d = JObj ps'"
      by (auto split: sum.splits)
    have "truthy (JStr s) \<or> js ''_'' @ k \<notin> set (map fst ps)" using a by auto
    then have "map_of ps' k = Some (JStr s)"
      using value_kept [OF w _ plain_text_value [OF s]] a by blast
    then show ?thesis using d by simp
  qed
  show "\<exists>ys. d' = JArr ys \<and> length ys = length xs \<and> ys ! i = JStr s"
    if a: "i < length xs \<and> xs ! i = JStr s \<and> processObjectFields rt (JArr xs) pk = Inr d'"
  proof -
    from a obtain ys where w: "process_elems rt xs pk = Inr ys" and d: "d' = JArr ys"
      by (auto split: sum.splits)
    from w have l: "length ys = length xs"
      and "\<forall>i < length xs. process_value rt (xs ! i) pk = Inr (ys ! i)"
      by (simp_all add: process_elems_nth)
    then have e: "process_value rt (xs ! i) pk = Inr (ys ! i)" using a by blast
    have "ys ! i = JStr s" using e a plain_text_value [OF s, of rt pk] by simp
    then show ?thesis using d l by simp
  qed
next
  assume "map_of c k' = Some (JStr []) \<and> map_of c (js ''_'' @ k') = Some w"
  then show "visit rt (js ''_'' @ k') c pk = Inr (set_prop k' w c)"
    using falsy_value_replaced [of c k' "JStr []" w rt pk] by simp
next
  show "processObjectFields rt (JObj [(js ''_x'', JStr (js ''v'')), (js ''x'', JStr [])]) pk =
     Inr (JObj [(js ''_x'', JStr (js ''v'')), (js ''x'', JStr (js ''v''))])"
    by (simp add: process_keys_Cons visit_def default_alias_def truthy_lookup_def set_prop_def Let_def
        encrypted_def is_string_def string_of_def typeof_object_def js_def prefix_def)
next
  assume "represents h v j \<and> depth j < n \<and> depth j < m"
  then show "\<exists>h1 res1 h2 res2.
         s_processObjectFields n rt h v pk = Some (h1, res1) \<and>
         s_processObjectFields m rt h1 v pk = Some (h2, res2) \<and>
         (case processObjectFields rt j pk of
            Inl e \<Rightarrow> res1 = Inl e \<and> res2 = Inl e
          | Inr j' \<Rightarrow> \<exists>v1 v2. res1 = Inr v1 \<and> res2 = Inr v2 \<and>
              represents h2 v1 j' \<and> represents h2 v2 j')"
    using walk_twice by blast
qed

text \<open>
  The theorem at the document \<^verbatim>\<open>{"name": "plain", "secret": demo_token}\<close>, at the array of its
  two values, at \<^verbatim>\<open>{"_x": "v", "x": ""}\<close>, and at a store that holds the first document at
  address 0.
\<close>

theorem C8_plain_strings_kept_and_walk_repeatable_witness:
  "parseEncryptedValue (js ''plain'') = Inl (Error (js ''Invalid EJSON: '' @ js ''plain'')) \<and>
   process_value demo_runtime (JStr (js ''plain'')) demo_key = Inr (JStr (js ''plain'')) \<and>
   visit demo_runtime (js ''name'')
       [(js ''name'', JStr (js ''plain'')), (js ''secret'', JStr demo_token)] demo_key =
     Inr [(js ''name'', JStr (js ''plain'')), (js ''secret'', JStr demo_token)] \<and>
   (\<exists>ps'. processObjectFields demo_runtime
             (JObj [(js ''name'', JStr (js ''plain'')), (js ''secret'', JStr demo_token)]) demo_key =
             Inr (JObj ps') \<and>
          map_of ps' (js ''name'') = Some (JStr (js ''plain''))) \<and>
   (\<exists>ys. processObjectFields demo_runtime (JArr [JStr (js ''plain''), JStr demo_token]) demo_key =
            Inr (JArr ys) \<and>
          length ys = 2 \<and> ys ! 0 = JStr (js ''plain'')) \<and>
   visit demo_runtime (js ''_x'') [(js ''_x'', JStr (js ''v'')), (js ''x'', JStr [])] demo_key =
     Inr [(js ''_x'', JStr (js ''v'')), (js ''x'', JStr (js ''v''))] \<and>
   (\<exists>h1 v1 h2 v2.
      s_processObjectFields 2 demo_runtime
          [Obj [(js ''name'', VStr (js ''plain'')), (js ''secret'', VStr demo_token)]] (VRef 0)
          demo_key = Some (h1, Inr v1) \<and>
      s_processObjectFields 2 demo_runtime h1 (VRef 0) demo_key = Some (h2, Inr v2) \<and>
      represents h2 v1 (JObj [(js ''name'', JStr (js ''plain'')), (js ''secret'', JStr (js ''hello''))]) \<and>
      represents h2 v2 (JObj [(js ''name'', JStr (js ''plain'')), (js ''secret'', JStr (js ''hello''))]))"
proof -
  let ?ps = "[(js ''name'', JStr (js ''plain'')), (js ''secret'', JStr demo_token)]"
  let ?ps' = "[(js ''name'', JStr (js ''plain'')), (js ''secret'', JStr (js ''hello''))]"
  let ?xs = "[JStr (js ''plain''), JStr demo_token]"
  let ?ys = "[JStr (js ''plain''), JStr (js ''hello'')]"
  let ?h = "[Obj [(js ''name'', VStr (js ''plain'')), (js ''secret'', VStr demo_token)]]"
  let ?c = "[(js ''_x'', JStr (js ''v'')), (js ''x'', JStr [])]"
  have s: "\<not> prefix (js ''EJ['') (js ''plain'')" "js ''plain'' \<noteq> []"
    by (simp_all add: js_def prefix_def)
  have k: "\<not> prefix (js ''_'') (js ''name'')" "\<not> prefix (js ''_'') (js ''secret'')"
    "js ''secret'' \<noteq> js ''name''"
    by (simp_all add: js_def prefix_def)
  have p: "process_value demo_runtime (JStr (js ''plain'')) demo_key = Inr (JStr (js ''plain''))"
    using s(1) by (rule plain_text_value)
  have t: "process_value demo_runtime (JStr demo_token) demo_key = Inr (JStr (js ''hello''))"
    using demo_token_encrypted demo_token_plain by (simp add: process_value_def string_of_def)
  have l: "map_of ?ps (js ''name'') = Some (JStr (js ''plain''))" by simp
  have o: "processObjectFields demo_runtime (JObj ?ps) demo_key = Inr (JObj ?ps')"
    using k by (simp add: process_keys_Cons visit_value p t set_prop_def)
  have a: "processObjectFields demo_runtime (JArr ?xs) demo_key = Inr (JArr ?ys)"
    by (simp add: process_elems_Cons p t)
  have f: "map_of ?c (js ''x'') = Some (JStr [])"
    "map_of ?c (js ''_'' @ js ''x'') = Some (JStr (js ''v''))" "js ''_'' @ js ''x'' = js ''_x''"
    "set_prop (js ''x'') (JStr (js ''v'')) ?c = [(js ''_x'', JStr (js ''v'')), (js ''x'', JStr (js ''v''))]"
    by (simp_all add: js_def set_prop_def)
  have r: "represents ?h (VRef 0) (JObj ?ps)"
    by (simp add: represents_def rep_JObj rel_props_def)
  have d: "depth (JObj ?ps) < 2" by (simp add: depth.simps)
  note c = C8_plain_strings_kept_and_walk_repeatable
    [where s = "js ''plain''" and rt = demo_runtime and pk = demo_key and k = "js ''name''"
       and cur = ?ps and ps = ?ps and d = "JObj ?ps'" and i = 0 and xs = ?xs and d' = "JArr ?ys"
       and c = ?c and k' = "js ''x''" and w = "JStr (js ''v'')"
       and h = ?h and v = "VRef 0" and j = "JObj ?ps" and n = 2 and m = 2]
  from c s have 1: "parseEncryptedValue (js ''plain'') = Inl (Error (js ''Invalid EJSON: '' @ js ''plain''))"
    by blast
  from c s k l have 2: "visit demo_runtime (js ''name'') ?ps demo_key = Inr ?ps"
    by blast
  from c s l o have 3: "\<exists>ps'. JObj ?ps' = JObj ps' \<and> map_of ps' (js ''name'') = Some (JStr (js ''plain''))"
    by blast
  from c s a have 4: "\<exists>ys. JArr ?ys = JArr ys \<and> length ys = length ?xs \<and> ys ! 0 = JStr (js ''plain'')"
    by simp
  from c f(1,2) have "visit demo_runtime (js ''_'' @ js ''x'') ?c demo_key =
      Inr (set_prop (js ''x'') (JStr (js ''v'')) ?c)"
    by blast
  then have 6: "visit demo_runtime (js ''_x'') ?c demo_key =
      Inr [(js ''_x'', JStr (js ''v'')), (js ''x'', JStr (js ''v''))]"
    unfolding f(3) f(4) .
  from c r d have 5: "\<exists>h1 v1 h2 v2.
      s_processObjectFields 2 demo_runtime ?h (VRef 0) demo_key = Some (h1, Inr v1) \<and>
      s_processObjectFields 2 demo_runtime h1 (VRef 0) demo_key = Some (h2, Inr v2) \<and>
      represents h2 v1 (JObj ?ps') \<and> represents h2 v2 (JObj ?ps')"
    unfolding o by auto
  show ?thesis using 1 p 2 3 4 5 6 unfolding o a by simp
qed

subsection \<open>C9: the walker and the object it is given\<close>

text \<open>
  C9, as the specification states it, has the walker write into the object it is given, so
  that the argument and the result are one changed object. \<^verbatim>\<open>processObjectFields\<close> starts
  with \<^verbatim>\<open>const configJson = structuredClone(rawConf)\<close> and writes to \<open>configJson\<close> only. On the
  store that holds, at address 0, the object \<^verbatim>\<open>{"secret": demo_token}\<close>, the call leaves that
  object as it was, token included, and returns the address 1 of a new object that holds the
  plaintext.
\<close>

theorem C9_argument_not_written_counterexample:
  "s_processObjectFields 2 demo_runtime [Obj [(js ''secret'', VStr demo_token)]] (VRef 0) demo_key =
     Some ([Obj [(js ''secret'', VStr demo_token)], Obj [(js ''secret'', VStr (js ''hello''))]],
           Inr (VRef 1))"
proof -
  have e: "v_encrypted (VStr demo_token)"
    using demo_token_encrypted
    by (simp add: v_encrypted_def encrypted_def is_string_def string_of_def)
  have k: "\<not> prefix (js ''_'') (js ''secret'')" by (simp add: js_def prefix_def)
  show ?thesis
    by (simp add: numeral_2_eq_2 props_of_def e k v_string_of_def demo_token_plain set_prop_def)
qed

text \<open>
  C9, amended: for every store, every value \<open>v\<close> in it that represents a document \<open>j\<close>, and
  every bound on the depth of the calls that exceeds the nesting of \<open>j\<close>, the call of
  \<^verbatim>\<open>processObjectFields\<close> on \<open>v\<close> returns or throws; the store it leaves extends the store it
  found, so no object that existed before the call is written to and \<open>v\<close> represents \<open>j\<close>
  afterwards as before. When the walker over values throws, the call throws the same error.
  When it returns \<open>j'\<close>, the call returns a value that represents \<open>j'\<close> using only objects
  allocated during the call; for an object or array argument this is a new object, not the
  argument.
\<close>

theorem C9_walker_builds_a_copy:
  assumes "represents h v j" and "depth j < n"
  shows "\<exists>h' res. s_processObjectFields n rt h v pk = Some (h', res) \<and>
           prefix h h' \<and> represents h' v j \<and>
           (case processObjectFields rt j pk of
              Inl e \<Rightarrow> res = Inl e
            | Inr j' \<Rightarrow> \<exists>v'. res = Inr v' \<and> rep (length h) h' v' j' \<and>
                (\<forall>a. v = VRef a \<longrightarrow> (\<exists>r. v' = VRef r \<and> length h \<le> r \<and> r \<noteq> a)))"
proof -
  from assms have r: "rep 0 h v j" by (simp add: represents_def)
  note sim = walker_simulation(1) [OF r assms(2), of rt pk]
  show ?thesis
  proof (cases "processObjectFields rt j pk")
    case (Inl e)
    then obtain h' where s: "s_processObjectFields n rt h v pk = Some (h', Inl e)"
      using sim by (auto simp: walk_sim_def)
    have p: "prefix h h'" using s_walk_frame(1) [OF s] by blast
    have "represents h' v j" unfolding represents_def using r p by (rule rep_prefix)
    then show ?thesis using Inl s p by simp
  next
    case (Inr j')
    then obtain h' v' where s: "s_processObjectFields n rt h v pk = Some (h', Inr v')"
      and r': "rep (length h) h' v' j'"
      using sim by (auto simp: walk_sim_def)
    note f = s_walk_frame(1) [OF s]
    then have p: "prefix h h'" by blast
    have k: "represents h' v j" unfolding represents_def using r p by (rule rep_prefix)
    have "\<exists>r. v' = VRef r \<and> length h \<le> r \<and> r \<noteq> a" if a: "v = VRef a" for a
    proof -
      from f a have "length h \<le> r \<and> r < length h'" if "v' = VRef r" for r
        using that by blast
      moreover from r a have "a < length h" by (cases j) (auto simp: rep_JObj rep_JArr)
      moreover from s a obtain r where "v' = VRef r"
        by (cases n) (auto split: option.splits val.splits cell.splits if_splits)
      ultimately show ?thesis by fastforce
    qed
    then show ?thesis using Inr s p k r' by simp
  qed
qed

text \<open>
  The theorem on the store of the counterexample: the argument still represents the document
  with the token, and the result, at address 1, the document with the plaintext.
\<close>

theorem C9_walker_builds_a_copy_witness:
  "\<exists>h' v'. s_processObjectFields 2 demo_runtime [Obj [(js ''secret'', VStr demo_token)]] (VRef 0)
               demo_key = Some (h', Inr v') \<and>
           prefix [Obj [(js ''secret'', VStr demo_token)]] h' \<and>
           represents h' (VRef 0) (JObj [(js ''secret'', JStr demo_token)]) \<and>
           rep 1 h' v' (JObj [(js ''secret'', JStr (js ''hello''))]) \<and>
           (\<exists>r. v' = VRef r \<and> 1 \<le> r \<and> r \<noteq> 0)"
proof -
  let ?h = "[Obj [(js ''secret'', VStr demo_token)]]"
  let ?j = "JObj [(js ''secret'', JStr demo_token)]"
  have a: "represents ?h (VRef 0) ?j"
    by (simp add: represents_def rep_JObj rel_props_def)
  have d: "depth ?j < 2" by (simp add: depth.simps)
  have w: "processObjectFields demo_runtime ?j demo_key = Inr (JObj [(js ''secret'', JStr (js ''hello''))])"
  proof -
    have k: "\<not> prefix (js ''_'') (js ''secret'')" by (simp add: js_def prefix_def)
    show ?thesis
      using demo_token_encrypted
      by (simp add: process_keys_Cons visit_def k demo_token_plain set_prop_def string_of_def)
  qed
  from C9_walker_builds_a_copy [OF a d, of demo_runtime demo_key] show ?thesis
    unfolding w by auto
qed

subsection \<open>C10: the alias of the public key\<close>

text \<open>
  Two states of the walk over the root object. Before \<^verbatim>\<open>_public_key\<close> is visited, that key
  holds the text \<open>pk\<close> and \<^verbatim>\<open>public_key\<close> is absent or falsy; afterwards both hold \<open>pk\<close>.
  Visiting \<^verbatim>\<open>_public_key\<close> leads from the first state to the second, and visiting any other
  key keeps the state.
\<close>

definition before_alias :: "jsstring \<Rightarrow> props \<Rightarrow> bool" where
  "before_alias pk cur =
     (map_of cur (js ''_public_key'') = Some (JStr pk) \<and> \<not> truthy_lookup cur (js ''public_key''))"

definition after_alias :: "jsstring \<Rightarrow> props \<Rightarrow> bool" where
  "after_alias pk cur =
     (map_of cur (js ''_public_key'') = Some (JStr pk) \<and>
      map_of cur (js ''public_key'') = Some (JStr pk))"

lemma public_key_names:
  "prefix (js ''_'') (js ''_public_key'')" "\<not> prefix (js ''_'') (js ''public_key'')"
  "drop 1 (js ''_public_key'') = js ''public_key''" "js ''_public_key'' \<noteq> js ''public_key''"
  "js ''public_key'' \<notin> set object_prototype_keys"
  "js ''_'' @ js ''public_key'' = js ''_public_key''"
  by (simp_all add: js_def prefix_def object_prototype_keys_def)

lemma after_alias_step:
  assumes pk: "pk \<noteq> []" "\<not> prefix (js ''EJ['') pk"
    and I: "after_alias pk cur" and v: "visit rt k cur privateKey = Inr cur'"
  shows "after_alias pk cur'"
proof (cases "prefix (js ''_'') k")
  case True
  then have c: "cur' = default_alias k cur" using v by (simp add: visit_def)
  have t: "truthy_lookup cur (js ''_public_key'')" "truthy_lookup cur (js ''public_key'')"
    using I pk(1) by (simp_all add: after_alias_def truthy_lookup_def)
  then have "map_of cur' (js ''_public_key'') = map_of cur (js ''_public_key'')"
    "map_of cur' (js ''public_key'') = map_of cur (js ''public_key'')"
    unfolding c map_of_default_alias by auto
  then show ?thesis using I by (simp add: after_alias_def)
next
  case False
  then have ne: "k \<noteq> js ''_public_key''" using public_key_names(1) by auto
  show ?thesis
  proof (cases "map_of cur k")
    case None
    then show ?thesis using v I False by (simp add: visit_def)
  next
    case (Some w)
    then obtain w' where w: "process_value rt w privateKey = Inr w'" and c: "cur' = set_prop k w' cur"
      using v visit_value [OF False Some, of rt privateKey] by (auto split: sum.splits)
    have "k = js ''public_key'' \<Longrightarrow> w' = JStr pk"
      using Some I w plain_text_value [OF pk(2), of rt privateKey] by (simp add: after_alias_def)
    then show ?thesis using I ne unfolding c after_alias_def map_of_set_prop by auto
  qed
qed

lemma before_alias_step:
  assumes pk: "pk \<noteq> []"
    and I: "before_alias pk cur" and v: "visit rt k cur privateKey = Inr cur'"
  shows "if k = js ''_public_key'' then after_alias pk cur' else before_alias pk cur'"
proof (cases "prefix (js ''_'') k")
  case True
  then have c: "cur' = default_alias k cur" using v by (simp add: visit_def)
  have t: "truthy_lookup cur (js ''_public_key'')"
    using I pk by (simp add: before_alias_def truthy_lookup_def)
  show ?thesis
  proof (cases "k = js ''_public_key''")
    case True
    then have d: "drop 1 k = js ''public_key''" using public_key_names(3) by simp
    have i: "map_of cur k = Some (JStr pk)" "\<not> truthy_lookup cur (js ''public_key'')"
      using I True by (simp_all add: before_alias_def)
    have 1: "map_of cur' (js ''public_key'') = Some (JStr pk)"
      unfolding c default_alias_lookup d using i by simp
    have 2: "map_of cur' (js ''_public_key'') = Some (JStr pk)"
      unfolding c default_alias_lookup d using i True public_key_names(4) by simp
    show ?thesis using True 1 2 by (simp add: after_alias_def)
  next
    case False
    have "drop 1 k \<noteq> js ''public_key''"
      using underscore_key [OF True] False public_key_names(6) by auto
    then have "map_of cur' (js ''public_key'') = map_of cur (js ''public_key'')"
      unfolding c map_of_default_alias by auto
    moreover have "map_of cur' (js ''_public_key'') = map_of cur (js ''_public_key'')"
      using t unfolding c map_of_default_alias by auto
    ultimately show ?thesis using False I by (simp add: before_alias_def truthy_lookup_def)
  qed
next
  case False
  then have ne: "k \<noteq> js ''_public_key''" using public_key_names(1) by auto
  show ?thesis
  proof (cases "map_of cur k")
    case None
    then show ?thesis using v I False ne by (simp add: visit_def)
  next
    case (Some w)
    then obtain w' where w: "process_value rt w privateKey = Inr w'" and c: "cur' = set_prop k w' cur"
      using v visit_value [OF False Some, of rt privateKey] by (auto split: sum.splits)
    have "k = js ''public_key'' \<Longrightarrow> \<not> truthy w'"
      using Some I falsy_value [OF _ w] by (auto simp: before_alias_def truthy_lookup_def)
    then show ?thesis using I ne unfolding c before_alias_def truthy_lookup_def map_of_set_prop
      by (auto split: option.splits)
  qed
qed

lemma after_alias_walk:
  assumes "pk \<noteq> []" "\<not> prefix (js ''EJ['') pk"
    and "after_alias pk cur" and "process_keys rt ks cur privateKey = Inr cur'"
  shows "after_alias pk cur'"
proof -
  have "\<And>k c c'. after_alias pk c \<Longrightarrow> visit rt k c privateKey = Inr c' \<Longrightarrow> after_alias pk c'"
    using after_alias_step [OF assms(1,2)] by blast
  then show ?thesis
    using process_keys_invariant [of "after_alias pk" rt privateKey cur ks cur'] assms(3,4)
    by blast
qed

lemma before_alias_walk:
  assumes pk: "pk \<noteq> []" "\<not> prefix (js ''EJ['') pk"
    and "before_alias pk cur" and "js ''_public_key'' \<in> set ks"
    and "process_keys rt ks cur privateKey = Inr cur'"
  shows "after_alias pk cur'"
  using assms(3-5)
proof (induction ks arbitrary: cur)
  case Nil
  then show ?case by simp
next
  case (Cons k ks)
  from Cons.prems(3) obtain cur1 where v: "visit rt k cur privateKey = Inr cur1"
    and r: "process_keys rt ks cur1 privateKey = Inr cur'"
    by (auto simp: process_keys_Cons split: sum.splits)
  note s = before_alias_step [OF pk(1) Cons.prems(1) v]
  show ?case
  proof (cases "k = js ''_public_key''")
    case True
    then have "after_alias pk cur1" using s by simp
    then show ?thesis using after_alias_walk [OF pk _ r] by blast
  next
    case False
    then have "before_alias pk cur1" "js ''_public_key'' \<in> set ks"
      using s Cons.prems(2) by auto
    then show ?thesis using Cons.IH r by blast
  qed
qed

text \<open>
  C10: for every document whose root mapping holds a public-key text under \<^verbatim>\<open>_public_key\<close>
  (a string that is not empty and is not itself a token) and has no key \<^verbatim>\<open>public_key\<close>, or
  has one with a falsy value, the document that \<open>processEjson\<close> returns has a root key
  \<^verbatim>\<open>public_key\<close> equal to the public-key text, and \<^verbatim>\<open>_public_key\<close> is retained unchanged.
\<close>

theorem C10_public_key_alias:
  assumes "map_of ps (js ''_public_key'') = Some (JStr pk)"
    and "pk \<noteq> []" and "\<not> prefix (js ''EJ['') pk"
    and "map_of ps (js ''public_key'') = None \<or>
         (\<exists>v. map_of ps (js ''public_key'') = Some v \<and> \<not> truthy v)"
    and "outcome (processEjson rt getPrivateKey (JObj ps)) = Inr r"
  shows "\<exists>ps'. r = JObj ps' \<and>
           map_of ps' (js ''public_key'') = Some (JStr pk) \<and>
           map_of ps' (js ''_public_key'') = Some (JStr pk)"
proof -
  from assms(5) obtain privateKey where "processObjectFields rt (JObj ps) privateKey = Inr r"
    by (auto simp: processEjson_def public_key_field_def split: sum.splits)
  then obtain ps' where r: "r = JObj ps'"
    and w: "process_keys rt (map fst ps) ps privateKey = Inr ps'"
    by (auto split: sum.splits)
  have b: "before_alias pk ps"
    using assms(1,4) public_key_names(5) by (auto simp: before_alias_def truthy_lookup_def)
  have "js ''_public_key'' \<in> set (map fst ps)"
    using assms(1) by (metis map_of_eq_None_iff option.distinct(1) set_map)
  from before_alias_walk [OF assms(2,3) b this w] show ?thesis
    using r by (auto simp: after_alias_def)
qed


theorem C10_public_key_alias_witness:
  "map_of [(js ''public_key'', JStr []), (js ''_public_key'', JStr (js ''af33e849'')), (js ''a'', JNum 1)]
     (js ''_public_key'') = Some (JStr (js ''af33e849'')) \<and>
   js ''af33e849'' \<noteq> [] \<and> \<not> prefix (js ''EJ['') (js ''af33e849'') \<and>
   (\<exists>v. map_of [(js ''public_key'', JStr []), (js ''_public_key'', JStr (js ''af33e849'')), (js ''a'', JNum 1)]
          (js ''public_key'') = Some v \<and> \<not> truthy v) \<and>
   outcome (processEjson demo_runtime (\<lambda>publicKey. Inr (js ''00''))
      (JObj [(js ''public_key'', JStr []), (js ''_public_key'', JStr (js ''af33e849'')), (js ''a'', JNum 1)])) =
     Inr (JObj [(js ''public_key'', JStr (js ''af33e849'')), (js ''_public_key'', JStr (js ''af33e849'')),
                (js ''a'', JNum 1)]) \<and>
   (\<exists>ps'. JObj [(js ''public_key'', JStr (js ''af33e849'')), (js ''_public_key'', JStr (js ''af33e849'')),
                (js ''a'', JNum 1)] = JObj ps' \<and>
      map_of ps' (js ''public_key'') = Some (JStr (js ''af33e849'')) \<and>
      map_of ps' (js ''_public_key'') = Some (JStr (js ''af33e849'')))"
proof -
  let ?doc = "[(js ''public_key'', JStr []), (js ''_public_key'', JStr (js ''af33e849'')), (js ''a'', JNum 1)]"
  let ?res = "[(js ''public_key'', JStr (js ''af33e849'')), (js ''_public_key'', JStr (js ''af33e849'')),
                (js ''a'', JNum 1)]"
  have 1: "map_of ?doc (js ''_public_key'') = Some (JStr (js ''af33e849''))"
    by (simp add: js_def)
  have 2: "js ''af33e849'' \<noteq> []" by (simp add: js_def)
  have 3: "\<not> prefix (js ''EJ['') (js ''af33e849'')" by (simp add: js_def prefix_def)
  have 4: "\<exists>v. map_of ?doc (js ''public_key'') = Some v \<and> \<not> truthy v"
    by (simp add: js_def)
  have 5: "outcome (processEjson demo_runtime (\<lambda>publicKey. Inr (js ''00'')) (JObj ?doc)) = Inr (JObj ?res)"
    by (simp add: processEjson_def public_key_field_def process_keys_Cons visit_def
        default_alias_def truthy_lookup_def set_prop_def Let_def encrypted_def is_string_def
        string_of_def typeof_object_def js_def prefix_def)
  from C10_public_key_alias [OF 1 2 3 disjI2 [OF 4] 5] 1 2 3 4 5 show ?thesis by blast
qed

end
